theory Spec2Isabelle
  imports Main
begin

section \<open>Data model\<close>

text \<open>
  JavaScript values that occur as fields of a request or of the stream options.
  A dictionary (the request passed to \<^verbatim>\<open>listObjectsV2\<close>, the options object) is a map
  from property names to values; a property may be present with the value
  \<^verbatim>\<open>undefined\<close>, which \<^verbatim>\<open>Object.assign\<close> and the spread operator copy like any other.
\<close>

datatype jsval = Str string | Num int | Bool bool | Undefined

type_synonym dict = "string \<rightharpoonup> jsval"

text \<open>Truthiness of a property read (an absent property reads as \<^verbatim>\<open>undefined\<close>).\<close>

fun truthy :: "jsval option \<Rightarrow> bool" where
  "truthy None = False"
| "truthy (Some Undefined) = False"
| "truthy (Some (Bool b)) = b"
| "truthy (Some (Num n)) = (n \<noteq> 0)"
| "truthy (Some (Str s)) = (s \<noteq> [])"

text \<open>
  One listed object, one common prefix and one page (\<^verbatim>\<open>ListObjectsV2Output\<close>).
  Every field of the SDK type is optional: \<open>None\<close> is an absent (nullish) field, and an
  entry of \<open>Contents\<close> or \<open>CommonPrefixes\<close> may itself be nullish. An absent
  \<open>IsTruncated\<close> is falsy and is modelled as \<open>False\<close>.
\<close>

record s3object =
  Key :: "string option"
  Size :: "int option"
  ETag :: "string option"

record common_prefix =
  Prefix :: "string option"

record response =
  Contents :: "s3object option list option"
  IsTruncated :: bool
  NextContinuationToken :: "string option"
  CommonPrefixes :: "common_prefix option list option"

text \<open>
  Errors. The provider fails with a cause; a read of a property of a nullish value
  throws a \<^verbatim>\<open>TypeError\<close>, which names the property that was being read.
\<close>

datatype property = P_length | P_element | P_Contents | P_CommonPrefixes | P_Prefix | P_Key

datatype error = ProviderError string | TypeError property

text \<open>What \<^verbatim>\<open>push\<close> receives as a chunk (the end signal \<^verbatim>\<open>push(null)\<close> is its own event).\<close>

datatype chunk = CStr string | CObj s3object | CNullish

text \<open>
  Everything the stream does that is visible outside: the calls of the provider, the
  notifications it emits and the calls of \<^verbatim>\<open>push\<close>, in the order they happen.
\<close>

datatype event =
    Restarted
  | Stopped
  | Request dict
  | Page dict "response option"
  | PrefixEv "string option"
  | Push chunk
  | PushEnd
  | ErrorEv error

text \<open>
  The stream object. \<open>s3\<close> is the provider: the results it still has to give, one per
  call, as the \<^verbatim>\<open>MockS3\<close> of the test suite holds its pages; \<open>Inl\<close> is a failure with
  its cause. \<open>events\<close> is the log of visible effects and \<open>pushes\<close> counts the calls of
  \<^verbatim>\<open>push\<close>. \<open>currentIndex\<close> is \<^verbatim>\<open>undefined\<close> at construction and is not read before the
  first fetch sets it to 0, so it is a \<open>nat\<close> that starts at 0.
\<close>

record stream =
  s3 :: "(string + response) list"
  readableOptions :: dict
  bucket :: string
  bucketPrefix :: string
  listObjectsV2args :: dict
  lastResponse :: "response option"
  currentIndex :: nat
  stopped :: bool
  events :: "event list"
  pushes :: nat

section \<open>The provider\<close>

text \<open>
  \<^verbatim>\<open>listObjectsV2\<close> of the provider: the next scripted result. Past the end of the
  script the callback gets no error and \<^verbatim>\<open>undefined\<close> data, as \<^verbatim>\<open>MockS3\<close> reads past the
  end of its page array.
\<close>

fun listObjectsV2 ::
  "(string + response) list \<Rightarrow> (string + response option) \<times> (string + response) list" where
  "listObjectsV2 [] = (Inr None, [])"
| "listObjectsV2 (Inl err # rest) = (Inl err, rest)"
| "listObjectsV2 (Inr data # rest) = (Inr (Some data), rest)"

section \<open>src/index.ts\<close>

definition defaultListObjectsV2Options :: dict where
  "defaultListObjectsV2Options = [''MaxKeys'' \<mapsto> Num 1000]"

text \<open>The constructor (lines 21 to 50): no I/O, the stream starts stopped with no response.\<close>

definition S3ListBucketStream ::
  "(string + response) list \<Rightarrow> string \<Rightarrow> string \<Rightarrow> dict \<Rightarrow> stream" where
  "S3ListBucketStream client b pre args =
     \<lparr> s3 = client,
       readableOptions = [''objectMode'' \<mapsto> Bool True],
       bucket = b,
       bucketPrefix = pre,
       listObjectsV2args = defaultListObjectsV2Options ++ args,
       lastResponse = None,
       currentIndex = 0,
       stopped = True,
       events = [],
       pushes = 0 \<rparr>"

text \<open>
  \<^verbatim>\<open>currentParams\<close> (lines 54 to 60): the three pagination fields are always own
  properties, the token with the value \<^verbatim>\<open>undefined\<close> when no response is held or the
  held response has no next token.
\<close>

definition currentParams :: "'a stream_scheme \<Rightarrow> dict" where
  "currentParams s =
     [''Bucket'' \<mapsto> Str (bucket s),
      ''Prefix'' \<mapsto> Str (bucketPrefix s),
      ''ContinuationToken'' \<mapsto>
         (case lastResponse s of
            None \<Rightarrow> Undefined
          | Some r \<Rightarrow> (case NextContinuationToken r of None \<Rightarrow> Undefined | Some t \<Rightarrow> Str t))]"

text \<open>
  \<^verbatim>\<open>_loadNextPage\<close> (lines 52 to 76). The result is \<open>Some err\<close> when the promise is
  rejected and \<open>None\<close> when it resolves.
\<close>

definition loadNextPage :: "'a stream_scheme \<Rightarrow> error option \<times> 'a stream_scheme" where
  "loadNextPage s =
     (let params = listObjectsV2args s ++ currentParams s;
          s1 = s\<lparr>events := events s @ [Request params]\<rparr>
      in case listObjectsV2 (s3 s1) of
           (Inl err, rest) \<Rightarrow> (Some (ProviderError err), s1\<lparr>s3 := rest\<rparr>)
         | (Inr data, rest) \<Rightarrow>
             (None, s1\<lparr>s3 := rest, lastResponse := data, currentIndex := 0,
                       events := events s1 @ [Page params data]\<rparr>))"

text \<open>
  The loop condition of \<^verbatim>\<open>_startRead\<close> (lines 84 to 87): is a page needed? Reading
  \<^verbatim>\<open>Contents.length\<close> throws when a response is held and has no \<^verbatim>\<open>Contents\<close>.
  A response that is \<^verbatim>\<open>null\<close> is not told apart from one that is \<^verbatim>\<open>undefined\<close>: both
  are \<open>None\<close>.
\<close>

definition needsPage :: "'a stream_scheme \<Rightarrow> error + bool" where
  "needsPage s =
     (case lastResponse s of
        None \<Rightarrow> Inr True
      | Some r \<Rightarrow>
          (case Contents r of
             None \<Rightarrow> Inl (TypeError P_length)
           | Some xs \<Rightarrow> Inr (currentIndex s \<ge> length xs)))"

text \<open>Line 88: a response is held and it is not truncated.\<close>

definition isOver :: "'a stream_scheme \<Rightarrow> bool" where
  "isOver s = (case lastResponse s of None \<Rightarrow> False | Some r \<Rightarrow> \<not> IsTruncated r)"

text \<open>
  One call of \<^verbatim>\<open>push\<close> with a chunk. What it returns is decided by the host stream and
  its consumer: \<open>ok k\<close> is the answer to the call number \<open>k\<close> (\<open>False\<close>: the buffer is full).
\<close>

definition push :: "(nat \<Rightarrow> bool) \<Rightarrow> chunk \<Rightarrow> 'a stream_scheme \<Rightarrow> bool \<times> 'a stream_scheme" where
  "push ok c s = (ok (pushes s), s\<lparr>events := events s @ [Push c], pushes := pushes s + 1\<rparr>)"

text \<open>\<^verbatim>\<open>push(null)\<close> (line 89): the end of the stream.\<close>

definition pushNull :: "(nat \<Rightarrow> bool) \<Rightarrow> 'a stream_scheme \<Rightarrow> bool \<times> 'a stream_scheme" where
  "pushNull ok s = (ok (pushes s), s\<lparr>events := events s @ [PushEnd], pushes := pushes s + 1\<rparr>)"

text \<open>
  Lines 94 to 98: one \<^verbatim>\<open>prefix\<close> notification per common prefix. Reading
  \<^verbatim>\<open>CommonPrefixes\<close> of an \<^verbatim>\<open>undefined\<close> response throws, and so does reading \<^verbatim>\<open>Prefix\<close>
  of a nullish entry.
\<close>

fun emitPrefixList ::
  "common_prefix option list \<Rightarrow> 'a stream_scheme \<Rightarrow> error option \<times> 'a stream_scheme" where
  "emitPrefixList [] s = (None, s)"
| "emitPrefixList (None # rest) s = (Some (TypeError P_Prefix), s)"
| "emitPrefixList (Some item # rest) s =
     emitPrefixList rest (s\<lparr>events := events s @ [PrefixEv (Prefix item)]\<rparr>)"

definition emitPrefixes :: "'a stream_scheme \<Rightarrow> error option \<times> 'a stream_scheme" where
  "emitPrefixes s =
     (case lastResponse s of
        None \<Rightarrow> (Some (TypeError P_CommonPrefixes), s)
      | Some r \<Rightarrow>
          (case CommonPrefixes r of
             None \<Rightarrow> (None, s)
           | Some items \<Rightarrow> emitPrefixList items s))"

text \<open>
  Lines 101 to 107: read the entry at the cursor, advance the cursor, push the entry
  unless it is nullish, and stop when \<^verbatim>\<open>push\<close> answers \<^verbatim>\<open>false\<close>. An index past the end
  of a JavaScript array reads \<^verbatim>\<open>undefined\<close>. With \<^verbatim>\<open>Contents\<close> absent the index expression
  is evaluated (the cursor advances) before the read throws. The result is \<open>Inr True\<close>
  to go round the loop again, \<open>Inr False\<close> to leave it, \<open>Inl err\<close> when an error is thrown.
\<close>

definition pushChunk :: "(nat \<Rightarrow> bool) \<Rightarrow> stream \<Rightarrow> (error + bool) \<times> stream" where
  "pushChunk ok s =
     (case lastResponse s of
        None \<Rightarrow> (Inl (TypeError P_Contents), s)
      | Some r \<Rightarrow>
          (let i = currentIndex s; s1 = s\<lparr>currentIndex := i + 1\<rparr>
           in case Contents r of
                None \<Rightarrow> (Inl (TypeError P_element), s1)
              | Some xs \<Rightarrow>
                  (case (if i < length xs then xs ! i else None) of
                     None \<Rightarrow> (Inr True, s1)
                   | Some chunkToPush \<Rightarrow>
                       (case push ok (CObj chunkToPush) s1 of
                          (True, s2) \<Rightarrow> (Inr True, s2)
                        | (False, s2) \<Rightarrow>
                            (Inr False, s2\<lparr>stopped := True, events := events s2 @ [Stopped]\<rparr>)))))"

text \<open>One round of the \<^verbatim>\<open>while (true)\<close> loop (lines 83 to 108).\<close>

definition iteration :: "(nat \<Rightarrow> bool) \<Rightarrow> stream \<Rightarrow> (error + bool) \<times> stream" where
  "iteration ok s =
     (case needsPage s of
        Inl err \<Rightarrow> (Inl err, s)
      | Inr False \<Rightarrow> pushChunk ok s
      | Inr True \<Rightarrow>
          (if isOver s then (Inr False, snd (pushNull ok s))
           else case loadNextPage s of
                  (Some err, s1) \<Rightarrow> (Inl err, s1)
                | (None, s1) \<Rightarrow>
                    (case emitPrefixes s1 of
                       (Some err, s2) \<Rightarrow> (Inl err, s2)
                     | (None, s2) \<Rightarrow> pushChunk ok s2)))"

text \<open>
  The order in which the loop makes progress: a round that goes round again has either
  used up one result of the provider or moved the cursor forward inside the held page.
\<close>

definition left :: "'a stream_scheme \<Rightarrow> nat" where
  "left s =
     (case lastResponse s of
        None \<Rightarrow> 0
      | Some r \<Rightarrow> (case Contents r of None \<Rightarrow> 0 | Some xs \<Rightarrow> length xs - currentIndex s))"

definition progress :: "('a stream_scheme \<times> 'a stream_scheme) set" where
  "progress = inv_image (less_than <*lex*> less_than) (\<lambda>s. (length (s3 s), left s))"

subsection \<open>Termination of the loop\<close>

lemma emitPrefixList_keeps:
  "emitPrefixList items s = (r, s') \<Longrightarrow> s3 s' = s3 s \<and> lastResponse s' = lastResponse s \<and> currentIndex s' = currentIndex s"
  by (induction items s rule: emitPrefixList.induct) auto

lemma emitPrefixes_keeps:
  "emitPrefixes s = (r, s') \<Longrightarrow> s3 s' = s3 s \<and> lastResponse s' = lastResponse s \<and> currentIndex s' = currentIndex s"
  by (auto simp: emitPrefixes_def split: option.splits dest: emitPrefixList_keeps)

lemma loadNextPage_resolved:
  "loadNextPage s = (None, s') \<Longrightarrow>
     currentIndex s' = 0 \<and> (lastResponse s' = None \<or> length (s3 s') < length (s3 s))"
  by (cases "s3 s" rule: listObjectsV2.cases) (auto simp: loadNextPage_def Let_def)

lemma pushChunk_continue:
  "pushChunk ok s = (Inr True, s') \<Longrightarrow>
     s3 s' = s3 s \<and> lastResponse s' = lastResponse s \<and> currentIndex s' = currentIndex s + 1 \<and> lastResponse s \<noteq> None"
  by (auto simp: pushChunk_def push_def Let_def split: option.splits if_splits bool.splits)

lemma iteration_progress:
  assumes "iteration ok s = (Inr True, s')"
  shows "(s', s) \<in> progress"
proof (cases "needsPage s")
  case (Inl e)
  with assms show ?thesis by (simp add: iteration_def)
next
  case (Inr b)
  show ?thesis
  proof (cases b)
    case False
    with Inr assms have p: "pushChunk ok s = (Inr True, s')" by (simp add: iteration_def)
    from Inr False obtain r xs where "lastResponse s = Some r" "Contents r = Some xs" "currentIndex s < length xs"
      by (auto simp: needsPage_def split: option.splits)
    with pushChunk_continue[OF p] show ?thesis
      by (auto simp: progress_def left_def)
  next
    case True
    with Inr assms obtain s1 s2 where l: "loadNextPage s = (None, s1)"
      and e: "emitPrefixes s1 = (None, s2)" and p: "pushChunk ok s2 = (Inr True, s')"
      by (auto simp: iteration_def split: if_splits prod.splits option.splits)
    from pushChunk_continue[OF p] emitPrefixes_keeps[OF e] loadNextPage_resolved[OF l]
    show ?thesis by (auto simp: progress_def left_def)
  qed
qed

text \<open>
  The loop of \<^verbatim>\<open>_startRead\<close> with its \<^verbatim>\<open>catch\<close> (lines 79 to 111): an error thrown inside
  the loop is emitted as an \<^verbatim>\<open>error\<close> notification and the function returns.
\<close>

function startRead_loop :: "(nat \<Rightarrow> bool) \<Rightarrow> stream \<Rightarrow> stream" where
  "startRead_loop ok s =
     (case iteration ok s of
        (Inr True, s') \<Rightarrow> startRead_loop ok s'
      | (Inr False, s') \<Rightarrow> s'
      | (Inl err, s') \<Rightarrow> s'\<lparr>events := events s' @ [ErrorEv err]\<rparr>)"
  by pat_completeness auto
termination
proof (relation "inv_image progress snd")
  show "wf (inv_image progress snd)"
    unfolding progress_def by (intro wf_inv_image wf_lex_prod wf_less_than)
qed (auto intro: iteration_progress [OF sym])


declare startRead_loop.simps [simp del]

text \<open>
  \<^verbatim>\<open>_startRead\<close> (lines 78 to 112). The function is asynchronous: while it waits for a
  page the host stream may call \<^verbatim>\<open>_read\<close> again, but \<^verbatim>\<open>_stopped\<close> is false from the first
  statement on, so such a call does nothing. A run of the loop, from the pull that starts
  it to the pause, the end or the error that leaves it, is therefore one step here.
\<close>

definition startRead :: "(nat \<Rightarrow> bool) \<Rightarrow> stream \<Rightarrow> stream" where
  "startRead ok s = startRead_loop ok (s\<lparr>stopped := False, events := events s @ [Restarted]\<rparr>)"

text \<open>\<^verbatim>\<open>_read\<close> (lines 114 to 119): the pull of the host stream.\<close>

definition read :: "(nat \<Rightarrow> bool) \<Rightarrow> stream \<Rightarrow> stream" where
  "read ok s = (if stopped s then startRead ok s else s)"

lemma wf_progress: "wf (progress :: ('a stream_scheme \<times> 'a stream_scheme) set)"
  unfolding progress_def by (intro wf_inv_image wf_lex_prod wf_less_than)

lemma trans_progress: "(a, b) \<in> progress \<Longrightarrow> (b, c) \<in> progress \<Longrightarrow> (a, c) \<in> progress"
  unfolding progress_def by (auto simp: )

lemma pushChunk_stopped:
  "pushChunk ok s = (res, s') \<Longrightarrow> res \<noteq> Inr False \<Longrightarrow> stopped s' = stopped s"
  by (auto simp: pushChunk_def push_def Let_def split: option.splits if_splits bool.splits)

lemma pushChunk_pause:
  "pushChunk ok s = (Inr False, s') \<Longrightarrow>
     stopped s' \<and> s3 s' = s3 s \<and> lastResponse s' = lastResponse s \<and> currentIndex s' = currentIndex s + 1 \<and> lastResponse s \<noteq> None"
  by (auto simp: pushChunk_def push_def Let_def split: option.splits if_splits bool.splits)

lemma emitPrefixList_stopped:
  "emitPrefixList items s = (r, s') \<Longrightarrow> stopped s' = stopped s"
  by (induction items s rule: emitPrefixList.induct) auto

lemma emitPrefixes_stopped:
  "emitPrefixes s = (r, s') \<Longrightarrow> stopped s' = stopped s"
  by (auto simp: emitPrefixes_def split: option.splits dest: emitPrefixList_stopped)

lemma loadNextPage_stopped:
  "loadNextPage s = (r, s') \<Longrightarrow> stopped s' = stopped s"
  by (cases "s3 s" rule: listObjectsV2.cases) (auto simp: loadNextPage_def Let_def)

lemma iteration_stopped:
  assumes "iteration ok s = (res, s')" "res \<noteq> Inr False"
  shows "stopped s' = stopped s"
  using assms
  by (auto simp: iteration_def split: sum.splits bool.splits if_splits prod.splits option.splits
      dest!: pushChunk_stopped emitPrefixes_stopped loadNextPage_stopped)

lemma iteration_exit:
  assumes "iteration ok s = (Inr False, s')" "\<not> stopped s" "stopped s'"
  shows "(s', s) \<in> progress"
proof (cases "needsPage s")
  case (Inl e)
  with assms show ?thesis by (simp add: iteration_def)
next
  case (Inr b)
  show ?thesis
  proof (cases b)
    case False
    with Inr assms have p: "pushChunk ok s = (Inr False, s')" by (simp add: iteration_def)
    from Inr False obtain r xs where "lastResponse s = Some r" "Contents r = Some xs" "currentIndex s < length xs"
      by (auto simp: needsPage_def split: option.splits)
    with pushChunk_pause[OF p] show ?thesis
      by (auto simp: progress_def left_def)
  next
    case True
    have "\<not> isOver s"
    proof
      assume "isOver s"
      with True Inr assms(1) have "s' = snd (pushNull ok s)" by (simp add: iteration_def)
      with assms(2,3) show False by (simp add: pushNull_def)
    qed
    with True Inr assms obtain s1 s2 where l: "loadNextPage s = (None, s1)"
      and e: "emitPrefixes s1 = (None, s2)" and p: "pushChunk ok s2 = (Inr False, s')"
      by (auto simp: iteration_def split: if_splits prod.splits option.splits)
    from pushChunk_pause[OF p] emitPrefixes_keeps[OF e] loadNextPage_resolved[OF l]
    show ?thesis by (auto simp: progress_def left_def)
  qed
qed

lemma loop_pause_progress:
  "\<not> stopped s \<Longrightarrow> stopped (startRead_loop ok s) \<Longrightarrow> (startRead_loop ok s, s) \<in> progress"
proof (induction ok s rule: startRead_loop.induct)
  case (1 ok s)
  obtain res s' where it: "iteration ok s = (res, s')" by (cases "iteration ok s")
  show ?case
  proof (cases res)
    case (Inl e)
    with it 1 iteration_stopped[OF it] show ?thesis
      by (simp add: startRead_loop.simps[of ok s])
  next
    case (Inr b)
    show ?thesis
    proof (cases b)
      case True
      with Inr it have eq: "startRead_loop ok s = startRead_loop ok s'"
        by (simp add: startRead_loop.simps[of ok s])
      from True Inr it iteration_stopped[OF it] 1 have ns: "\<not> stopped s'" by simp
      have "(startRead_loop ok s', s') \<in> progress"
        using "1.IH"[OF it[symmetric] _ _ ns] Inr True "1.prems" eq by simp
      moreover have "(s', s) \<in> progress" using it Inr True by (simp add: iteration_progress)
      ultimately show ?thesis using eq trans_progress by metis
    next
      case False
      with Inr it have eq: "startRead_loop ok s = s'"
        by (simp add: startRead_loop.simps[of ok s])
      with iteration_exit[of ok s s'] it Inr False 1 show ?thesis by simp
    qed
  qed
qed

lemma startRead_progress:
  assumes "stopped (startRead ok s)"
  shows "(startRead ok s, s) \<in> progress"
proof -
  let ?s1 = "s\<lparr>stopped := False, events := events s @ [Restarted]\<rparr>"
  have "(startRead_loop ok ?s1, ?s1) \<in> progress"
    using assms by (intro loop_pause_progress) (simp_all add: startRead_def)
  moreover have "left ?s1 = left s" "s3 ?s1 = s3 s"
    by (simp_all add: left_def split: option.splits)
  ultimately show ?thesis by (simp add: startRead_def progress_def)
qed

text \<open>
  The consumer that keeps pulling: the host stream calls \<^verbatim>\<open>_read\<close> again after every
  pause, until the stream has ended or failed (it is then no longer stopped, and a
  pull does nothing).
\<close>

function drain :: "(nat \<Rightarrow> bool) \<Rightarrow> stream \<Rightarrow> stream" where
  "drain ok s = (if stopped s then drain ok (read ok s) else s)"
  by pat_completeness auto
termination
proof (relation "inv_image (less_than <*lex*> progress) (\<lambda>(ok, s). (if stopped s then 1 else 0 :: nat, s))")
  show "wf (inv_image (less_than <*lex*> progress) (\<lambda>(ok, s). (if stopped s then 1 else 0 :: nat, s)))"
    by (intro wf_inv_image wf_lex_prod wf_less_than wf_progress)
next
  fix ok :: "nat \<Rightarrow> bool" and s :: stream
  assume "stopped s"
  then show "((ok, read ok s), (ok, s)) \<in> inv_image (less_than <*lex*> progress) (\<lambda>(ok, s). (if stopped s then 1 else 0 :: nat, s))"
    by (auto simp: read_def startRead_progress)
qed

declare drain.simps [simp del]

section \<open>What a run emits\<close>

text \<open>The chunks pushed so far, in order.\<close>

fun pushedOf :: "event list \<Rightarrow> chunk list" where
  "pushedOf [] = []"
| "pushedOf (Push c # es) = c # pushedOf es"
| "pushedOf (e # es) = pushedOf es"

text \<open>The entries of a page that are not nullish.\<close>

fun present :: "'a option list \<Rightarrow> 'a list" where
  "present [] = []"
| "present (None # xs) = present xs"
| "present (Some x # xs) = x # present xs"

definition prefixesOk :: "response \<Rightarrow> bool" where
  "prefixesOk r = (case CommonPrefixes r of None \<Rightarrow> True | Some items \<Rightarrow> list_all (\<lambda>i. i \<noteq> None) items)"

text \<open>
  The objects that a provider script delivers: page after page while the pages are
  well formed and truncated, up to the first failure or the first page that is not
  truncated.
\<close>

fun expected :: "(string + response) list \<Rightarrow> chunk list" where
  "expected [] = []"
| "expected (Inl err # rest) = []"
| "expected (Inr r # rest) =
     (if \<not> prefixesOk r then []
      else case Contents r of
             None \<Rightarrow> []
           | Some xs \<Rightarrow> map CObj (present xs) @ (if IsTruncated r then expected rest else []))"

text \<open>What is still to be pushed from a state: the rest of the held page, then the script.\<close>

definition todo :: "stream \<Rightarrow> chunk list" where
  "todo s =
     (case lastResponse s of
        None \<Rightarrow> expected (s3 s)
      | Some r \<Rightarrow>
          (case Contents r of
             None \<Rightarrow> []
           | Some xs \<Rightarrow>
               map CObj (present (drop (currentIndex s) xs)) @
               (if IsTruncated r then expected (s3 s) else [])))"

lemma pushedOf_append [simp]: "pushedOf (es @ fs) = pushedOf es @ pushedOf fs"
  by (induction es rule: pushedOf.induct) auto

lemma emitPrefixList_pushed:
  "emitPrefixList items s = (r, s') \<Longrightarrow> pushedOf (events s') = pushedOf (events s)"
  by (induction items s rule: emitPrefixList.induct) auto

lemma emitPrefixList_result:
  "emitPrefixList items s = (r, s') \<Longrightarrow> (r = None) = list_all (\<lambda>i. i \<noteq> None) items"
  by (induction items s rule: emitPrefixList.induct) auto

lemma emitPrefixes_pushed:
  "emitPrefixes s = (r, s') \<Longrightarrow> pushedOf (events s') = pushedOf (events s)"
  by (auto simp: emitPrefixes_def split: option.splits dest: emitPrefixList_pushed)

lemma emitPrefixes_result:
  "emitPrefixes s = (r, s') \<Longrightarrow> lastResponse s = Some p \<Longrightarrow> (r = None) = prefixesOk p"
  by (auto simp: emitPrefixes_def prefixesOk_def split: option.splits dest: emitPrefixList_result)

lemma present_drop:
  "i < length xs \<Longrightarrow> present (drop i xs) = (case xs ! i of None \<Rightarrow> [] | Some x \<Rightarrow> [x]) @ present (drop (Suc i) xs)"
  by (simp add: Cons_nth_drop_Suc [symmetric] split: option.splits)

lemma todo_cong:
  "lastResponse a = lastResponse b \<Longrightarrow> s3 a = s3 b \<Longrightarrow> currentIndex a = currentIndex b \<Longrightarrow> todo a = todo b"
  by (simp add: todo_def split: option.splits)

lemma pushChunk_todo:
  assumes "pushChunk ok s = (res, s')" "lastResponse s \<noteq> None"
  shows "case res of
           Inl e \<Rightarrow> pushedOf (events s') = pushedOf (events s) \<and> todo s = []
         | Inr b \<Rightarrow> pushedOf (events s') @ todo s' = pushedOf (events s) @ todo s"
proof -
  from assms(2) obtain r where r: "lastResponse s = Some r" by auto
  show ?thesis
  proof (cases "Contents r")
    case None
    with r assms(1) show ?thesis by (auto simp: pushChunk_def todo_def Let_def)
  next
    case (Some xs)
    show ?thesis
    proof (cases "currentIndex s < length xs")
      case False
      with r Some assms(1) show ?thesis by (auto simp: pushChunk_def todo_def Let_def)
    next
      case True
      then have d: "present (drop (currentIndex s) xs) =
          (case xs ! currentIndex s of None \<Rightarrow> [] | Some x \<Rightarrow> [x]) @ present (drop (Suc (currentIndex s)) xs)"
        by (rule present_drop)
      from r Some True assms(1) show ?thesis
        by (auto simp: pushChunk_def push_def todo_def Let_def d split: option.splits bool.splits)
    qed
  qed
qed

lemma loadNextPage_todo:
  assumes "loadNextPage s = (r, s')" "needsPage s = Inr True" "\<not> isOver s"
  shows "pushedOf (events s') = pushedOf (events s)"
    and "r \<noteq> None \<Longrightarrow> todo s = []"
    and "lastResponse s' = None \<Longrightarrow> todo s = []"
    and "lastResponse s' = Some p \<Longrightarrow> r = None \<Longrightarrow> todo s = (if prefixesOk p then todo s' else [])"
proof -
  have t: "todo s = expected (s3 s)"
    using assms(2,3) by (auto simp: todo_def needsPage_def isOver_def split: option.splits)
  show "pushedOf (events s') = pushedOf (events s)"
    using assms(1) by (cases "s3 s" rule: listObjectsV2.cases) (auto simp: loadNextPage_def Let_def)
  show "r \<noteq> None \<Longrightarrow> todo s = []"
    using assms(1) t by (cases "s3 s" rule: listObjectsV2.cases) (auto simp: loadNextPage_def Let_def)
  show "lastResponse s' = None \<Longrightarrow> todo s = []"
    using assms(1) t by (cases "s3 s" rule: listObjectsV2.cases) (auto simp: loadNextPage_def Let_def)
  show "lastResponse s' = Some p \<Longrightarrow> r = None \<Longrightarrow> todo s = (if prefixesOk p then todo s' else [])"
    using assms(1) t
    by (cases "s3 s" rule: listObjectsV2.cases) (auto simp: loadNextPage_def Let_def todo_def split: option.splits)
qed

text \<open>How a round of the loop ended: it goes on, it paused, it ended the stream, it threw.\<close>

lemma iteration_todo:
  assumes "iteration ok s = (res, s')" "\<not> stopped s"
  shows "if res = Inr True \<or> (res = Inr False \<and> stopped s')
         then pushedOf (events s') @ todo s' = pushedOf (events s) @ todo s
         else pushedOf (events s') = pushedOf (events s) \<and> todo s = []"
proof (cases "needsPage s")
  case (Inl e)
  with assms show ?thesis
    by (auto simp: iteration_def needsPage_def todo_def split: option.splits)
next
  case (Inr b)
  show ?thesis
  proof (cases b)
    case False
    with Inr assms have p: "pushChunk ok s = (res, s')" by (simp add: iteration_def)
    from Inr False have "lastResponse s \<noteq> None" by (auto simp: needsPage_def split: option.splits)
    from pushChunk_todo[OF p this] pushChunk_stopped[OF p] pushChunk_pause[of ok s s'] p assms(2)
    show ?thesis by (cases res) auto
  next
    case True
    show ?thesis
    proof (cases "isOver s")
      case over: True
      with True Inr assms show ?thesis
        by (auto simp: iteration_def pushNull_def todo_def needsPage_def isOver_def split: option.splits)
    next
      case notover: False
      obtain le s1 where l: "loadNextPage s = (le, s1)" by (cases "loadNextPage s")
      have np: "needsPage s = Inr True" using Inr True by simp
      note L = loadNextPage_todo[OF l np notover]
      show ?thesis
      proof (cases le)
        case (Some e)
        with l True Inr notover assms L(1,2) show ?thesis by (auto simp: iteration_def)
      next
        case None
        obtain pe s2 where e: "emitPrefixes s1 = (pe, s2)" by (cases "emitPrefixes s1")
        note K = emitPrefixes_keeps[OF e] emitPrefixes_pushed[OF e] emitPrefixes_stopped[OF e]
        have t2: "todo s2 = todo s1" using K by (intro todo_cong) simp_all
        show ?thesis
        proof (cases "lastResponse s1")
          case lr: None
          with e have "pe = Some (TypeError P_CommonPrefixes)" "s2 = s1" by (auto simp: emitPrefixes_def)
          with l None True Inr notover assms e L(1) L(3)[OF lr] show ?thesis
            by (auto simp: iteration_def)
        next
          case lr: (Some p)
          note R = emitPrefixes_result[OF e lr]
          show ?thesis
          proof (cases pe)
            case pe: (Some err)
            with R have "\<not> prefixesOk p" by simp
            with L(4)[OF lr None] have "todo s = []" by simp
            with l None True Inr notover assms e pe L(1) K show ?thesis
              by (auto simp: iteration_def)
          next
            case pe: None
            with R have "prefixesOk p" by simp
            with L(4)[OF lr None] t2 have ts: "todo s = todo s2" by simp
            from l None True Inr notover assms e pe have p: "pushChunk ok s2 = (res, s')"
              by (auto simp: iteration_def)
            have "lastResponse s2 \<noteq> None" using K lr by simp
            from pushChunk_todo[OF p this] pushChunk_stopped[OF p] pushChunk_pause[of ok s2 s'] p
              assms(2) K L(1) loadNextPage_stopped[OF l] ts
            show ?thesis by (cases res) auto
          qed
        qed
      qed
    qed
  qed
qed

lemma loop_todo:
  "\<not> stopped s \<Longrightarrow>
     pushedOf (events (startRead_loop ok s)) @ (if stopped (startRead_loop ok s) then todo (startRead_loop ok s) else [])
       = pushedOf (events s) @ todo s"
proof (induction ok s rule: startRead_loop.induct)
  case (1 ok s)
  obtain res s' where it: "iteration ok s = (res, s')" by (cases "iteration ok s")
  note T = iteration_todo[OF it "1.prems"]
  show ?case
  proof (cases res)
    case (Inl e)
    with it T iteration_stopped[OF it] "1.prems" show ?thesis
      by (simp add: startRead_loop.simps[of ok s])
  next
    case (Inr b)
    show ?thesis
    proof (cases b)
      case True
      with Inr it have eq: "startRead_loop ok s = startRead_loop ok s'"
        by (simp add: startRead_loop.simps[of ok s])
      from True Inr it iteration_stopped[OF it] 1 have ns: "\<not> stopped s'" by simp
      have "pushedOf (events (startRead_loop ok s')) @
              (if stopped (startRead_loop ok s') then todo (startRead_loop ok s') else [])
            = pushedOf (events s') @ todo s'"
        using "1.IH"[OF it[symmetric] Inr] True ns by simp
      with Inr True T show ?thesis by (simp add: eq split: if_splits)
    next
      case False
      with Inr it have eq: "startRead_loop ok s = s'"
        by (simp add: startRead_loop.simps[of ok s])
      with T Inr False show ?thesis by (auto split: if_splits)
    qed
  qed
qed

lemma startRead_todo:
  "pushedOf (events (startRead ok s)) @ (if stopped (startRead ok s) then todo (startRead ok s) else [])
     = pushedOf (events s) @ todo s"
proof -
  let ?s1 = "s\<lparr>stopped := False, events := events s @ [Restarted]\<rparr>"
  have "todo ?s1 = todo s" by (intro todo_cong) simp_all
  with loop_todo[of ?s1 ok] show ?thesis by (simp add: startRead_def split: if_splits)
qed

lemma drain_todo:
  "stopped s \<Longrightarrow> pushedOf (events (drain ok s)) = pushedOf (events s) @ todo s"
proof (induction ok s rule: drain.induct)
  case (1 ok s)
  let ?s1 = "startRead ok s"
  have d: "drain ok s = drain ok ?s1" using "1.prems" by (simp add: drain.simps[of ok s] read_def)
  show ?case
  proof (cases "stopped ?s1")
    case True
    with "1.IH"[OF "1.prems"] "1.prems" startRead_todo[of ok s] show ?thesis
      by (simp add: d read_def)
  next
    case False
    then have "drain ok ?s1 = ?s1" by (simp add: drain.simps[of ok ?s1])
    with False startRead_todo[of ok s] show ?thesis by (simp add: d)
  qed
qed

text \<open>The two notifications that close a stream: the end signal and an error.\<close>

fun terminal :: "event \<Rightarrow> bool" where
  "terminal PushEnd = True"
| "terminal (ErrorEv err) = True"
| "terminal e = False"

text \<open>
  How a provider script closes the stream: with the end signal after the first page
  that is not truncated, or with the first error on the way.
\<close>

fun fate :: "(string + response) list \<Rightarrow> event" where
  "fate [] = ErrorEv (TypeError P_CommonPrefixes)"
| "fate (Inl err # rest) = ErrorEv (ProviderError err)"
| "fate (Inr r # rest) =
     (if \<not> prefixesOk r then ErrorEv (TypeError P_Prefix)
      else case Contents r of
             None \<Rightarrow> ErrorEv (TypeError P_element)
           | Some xs \<Rightarrow> if IsTruncated r then fate rest else PushEnd)"

definition fateOf :: "stream \<Rightarrow> event" where
  "fateOf s =
     (case lastResponse s of
        None \<Rightarrow> fate (s3 s)
      | Some r \<Rightarrow>
          (case Contents r of
             None \<Rightarrow> ErrorEv (TypeError P_length)
           | Some xs \<Rightarrow> if IsTruncated r then fate (s3 s) else PushEnd))"

lemma fateOf_cong:
  "lastResponse a = lastResponse b \<Longrightarrow> s3 a = s3 b \<Longrightarrow> fateOf a = fateOf b"
  by (simp add: fateOf_def split: option.splits)

lemma emitPrefixList_terminal:
  "emitPrefixList items s = (r, s') \<Longrightarrow> filter terminal (events s') = filter terminal (events s)"
  by (induction items s rule: emitPrefixList.induct) auto

lemma emitPrefixList_error:
  "emitPrefixList items s = (Some e, s') \<Longrightarrow> e = TypeError P_Prefix"
  by (induction items s rule: emitPrefixList.induct) auto

lemma emitPrefixes_terminal:
  "emitPrefixes s = (r, s') \<Longrightarrow> filter terminal (events s') = filter terminal (events s)"
  by (auto simp: emitPrefixes_def split: option.splits dest: emitPrefixList_terminal)

lemma emitPrefixes_error:
  "emitPrefixes s = (Some e, s') \<Longrightarrow> lastResponse s \<noteq> None \<Longrightarrow> e = TypeError P_Prefix"
  by (auto simp: emitPrefixes_def split: option.splits dest: emitPrefixList_error)

lemma pushChunk_fate:
  assumes "pushChunk ok s = (res, s')" "lastResponse s = Some r"
  shows "filter terminal (events s') = filter terminal (events s)"
    and "lastResponse s' = lastResponse s" and "s3 s' = s3 s"
    and "res = Inl e \<Longrightarrow> e = TypeError P_element \<and> Contents r = None"
    and "res = Inr b \<Longrightarrow> Contents r \<noteq> None"
  using assms
  by (auto simp: pushChunk_def push_def Let_def split: option.splits bool.splits if_splits)

lemma loadNextPage_fate:
  assumes "loadNextPage s = (r, s')" "needsPage s = Inr True" "\<not> isOver s"
  shows "filter terminal (events s') = filter terminal (events s)"
    and "r = Some e \<Longrightarrow> fateOf s = ErrorEv e"
    and "r = None \<Longrightarrow> lastResponse s' = None \<Longrightarrow> fateOf s = ErrorEv (TypeError P_CommonPrefixes)"
    and "r = None \<Longrightarrow> lastResponse s' = Some p \<Longrightarrow>
           fateOf s = (if \<not> prefixesOk p then ErrorEv (TypeError P_Prefix)
                       else if Contents p = None then ErrorEv (TypeError P_element) else fateOf s')"
proof -
  have t: "fateOf s = fate (s3 s)"
    using assms(2,3) by (auto simp: fateOf_def needsPage_def isOver_def split: option.splits)
  show "filter terminal (events s') = filter terminal (events s)"
    using assms(1) by (cases "s3 s" rule: listObjectsV2.cases) (auto simp: loadNextPage_def Let_def)
  show "r = Some e \<Longrightarrow> fateOf s = ErrorEv e"
    using assms(1) t by (cases "s3 s" rule: listObjectsV2.cases) (auto simp: loadNextPage_def Let_def)
  show "r = None \<Longrightarrow> lastResponse s' = None \<Longrightarrow> fateOf s = ErrorEv (TypeError P_CommonPrefixes)"
    using assms(1) t by (cases "s3 s" rule: listObjectsV2.cases) (auto simp: loadNextPage_def Let_def)
  show "r = None \<Longrightarrow> lastResponse s' = Some p \<Longrightarrow>
           fateOf s = (if \<not> prefixesOk p then ErrorEv (TypeError P_Prefix)
                       else if Contents p = None then ErrorEv (TypeError P_element) else fateOf s')"
    using assms(1) t
    by (cases "s3 s" rule: listObjectsV2.cases) (auto simp: loadNextPage_def Let_def fateOf_def split: option.splits)
qed

lemma iteration_fate:
  assumes "iteration ok s = (res, s')" "\<not> stopped s"
  shows "case res of
           Inl e \<Rightarrow> filter terminal (events s') = filter terminal (events s) \<and> fateOf s = ErrorEv e
         | Inr b \<Rightarrow>
             if b \<or> stopped s'
             then filter terminal (events s') = filter terminal (events s) \<and> fateOf s' = fateOf s
             else events s' = events s @ [PushEnd] \<and> fateOf s = PushEnd"
proof (cases "needsPage s")
  case (Inl e)
  with assms show ?thesis
    by (auto simp: iteration_def needsPage_def fateOf_def split: option.splits)
next
  case (Inr b)
  show ?thesis
  proof (cases b)
    case False
    with Inr assms have p: "pushChunk ok s = (res, s')" by (simp add: iteration_def)
    from Inr False obtain r where r: "lastResponse s = Some r" "Contents r \<noteq> None"
      by (auto simp: needsPage_def split: option.splits)
    note P = pushChunk_fate[OF p r(1)]
    have "fateOf s' = fateOf s" using P by (intro fateOf_cong) simp_all
    with P r(2) pushChunk_pause[of ok s s'] p show ?thesis
      by (cases res) (auto split: bool.splits)
  next
    case True
    show ?thesis
    proof (cases "isOver s")
      case over: True
      with True Inr assms show ?thesis
        by (auto simp: iteration_def pushNull_def fateOf_def needsPage_def isOver_def split: option.splits)
    next
      case notover: False
      obtain le s1 where l: "loadNextPage s = (le, s1)" by (cases "loadNextPage s")
      have np: "needsPage s = Inr True" using Inr True by simp
      note L = loadNextPage_fate[OF l np notover]
      show ?thesis
      proof (cases le)
        case (Some e)
        with l True Inr notover assms L(1) L(2)[OF Some] show ?thesis by (auto simp: iteration_def)
      next
        case None
        obtain pe s2 where e: "emitPrefixes s1 = (pe, s2)" by (cases "emitPrefixes s1")
        note K = emitPrefixes_keeps[OF e] emitPrefixes_terminal[OF e] emitPrefixes_stopped[OF e]
        have t2: "fateOf s2 = fateOf s1" using K by (intro fateOf_cong) simp_all
        show ?thesis
        proof (cases "lastResponse s1")
          case lr: None
          with e have "pe = Some (TypeError P_CommonPrefixes)" "s2 = s1" by (auto simp: emitPrefixes_def)
          with l None True Inr notover assms e L(1) L(3)[OF None lr] show ?thesis
            by (auto simp: iteration_def)
        next
          case lr: (Some p)
          note R = emitPrefixes_result[OF e lr]
          show ?thesis
          proof (cases pe)
            case pe: (Some err)
            with R have "\<not> prefixesOk p" by simp
            with L(4)[OF None lr] have "fateOf s = ErrorEv (TypeError P_Prefix)" by simp
            moreover have "err = TypeError P_Prefix" using emitPrefixes_error[of s1 err s2] e pe lr by simp
            ultimately show ?thesis using l None True Inr notover assms e pe L(1) K
              by (auto simp: iteration_def)
          next
            case pe: None
            with R have pk: "prefixesOk p" by simp
            from l None True Inr notover assms e pe have p: "pushChunk ok s2 = (res, s')"
              by (auto simp: iteration_def)
            have lr2: "lastResponse s2 = Some p" using K lr by simp
            note P = pushChunk_fate[OF p lr2]
            have f': "fateOf s' = fateOf s2" using P by (intro fateOf_cong) simp_all
            from P f' t2 pk L(4)[OF None lr] L(1) K pushChunk_pause[of ok s2 s'] p
            show ?thesis by (cases res) (auto split: bool.splits)
          qed
        qed
      qed
    qed
  qed
qed

lemma loop_fate:
  "\<not> stopped s \<Longrightarrow>
     (if stopped (startRead_loop ok s)
      then filter terminal (events (startRead_loop ok s)) = filter terminal (events s) \<and>
           fateOf (startRead_loop ok s) = fateOf s
      else filter terminal (events (startRead_loop ok s)) = filter terminal (events s) @ [fateOf s] \<and>
           last (events (startRead_loop ok s)) = fateOf s)"
proof (induction ok s rule: startRead_loop.induct)
  case (1 ok s)
  obtain res s' where it: "iteration ok s = (res, s')" by (cases "iteration ok s")
  note T = iteration_fate[OF it "1.prems"]
  show ?case
  proof (cases res)
    case (Inl e)
    with it T iteration_stopped[OF it] "1.prems" show ?thesis
      by (simp add: startRead_loop.simps[of ok s])
  next
    case (Inr b)
    show ?thesis
    proof (cases b)
      case True
      with Inr it have eq: "startRead_loop ok s = startRead_loop ok s'"
        by (simp add: startRead_loop.simps[of ok s])
      from True Inr it iteration_stopped[OF it] 1 have ns: "\<not> stopped s'" by simp
      have "if stopped (startRead_loop ok s')
            then filter terminal (events (startRead_loop ok s')) = filter terminal (events s') \<and>
                 fateOf (startRead_loop ok s') = fateOf s'
            else filter terminal (events (startRead_loop ok s')) = filter terminal (events s') @ [fateOf s'] \<and>
                 last (events (startRead_loop ok s')) = fateOf s'"
        using "1.IH"[OF it[symmetric] Inr] True ns by simp
      with Inr True T show ?thesis by (simp add: eq split: if_splits)
    next
      case False
      with Inr it have eq: "startRead_loop ok s = s'"
        by (simp add: startRead_loop.simps[of ok s])
      with T Inr False show ?thesis by (auto split: if_splits)
    qed
  qed
qed

lemma startRead_fate:
  "if stopped (startRead ok s)
   then filter terminal (events (startRead ok s)) = filter terminal (events s) \<and>
        fateOf (startRead ok s) = fateOf s
   else filter terminal (events (startRead ok s)) = filter terminal (events s) @ [fateOf s] \<and>
        last (events (startRead ok s)) = fateOf s"
proof -
  let ?s1 = "s\<lparr>stopped := False, events := events s @ [Restarted]\<rparr>"
  have "fateOf ?s1 = fateOf s" by (intro fateOf_cong) simp_all
  with loop_fate[of ?s1 ok] show ?thesis by (simp add: startRead_def split: if_splits)
qed

lemma drain_running: "\<not> stopped (drain ok s)"
proof (induction ok s rule: drain.induct)
  case (1 ok s)
  then show ?case by (cases "stopped s") (simp_all add: drain.simps[of ok s])
qed

lemma drain_fate:
  "stopped s \<Longrightarrow>
     filter terminal (events (drain ok s)) = filter terminal (events s) @ [fateOf s] \<and>
     last (events (drain ok s)) = fateOf s"
proof (induction ok s rule: drain.induct)
  case (1 ok s)
  let ?s1 = "startRead ok s"
  have d: "drain ok s = drain ok ?s1" using "1.prems" by (simp add: drain.simps[of ok s] read_def)
  show ?case
  proof (cases "stopped ?s1")
    case True
    with "1.IH"[OF "1.prems"] "1.prems" startRead_fate[of ok s] show ?thesis
      by (simp add: d read_def)
  next
    case False
    then have "drain ok ?s1 = ?s1" by (simp add: drain.simps[of ok ?s1])
    with False startRead_fate[of ok s] show ?thesis by (simp add: d)
  qed
qed

section \<open>Completeness and order\<close>

text \<open>The items of one page: the entries of its \<open>Contents\<close> that are not nullish, as pushed.\<close>

definition items :: "response \<Rightarrow> chunk list" where
  "items r = (case Contents r of None \<Rightarrow> [] | Some xs \<Rightarrow> map CObj (present xs))"

text \<open>The pages of the test suite (\<^verbatim>\<open>createPage\<close>): three pages of two objects each.\<close>

definition testObject :: "string \<Rightarrow> int \<Rightarrow> s3object" where
  "testObject k n = \<lparr>Key = Some k, Size = Some n, ETag = Some (''etag-'' @ k)\<rparr>"

definition testPages :: "response list" where
  "testPages =
     [\<lparr>Contents = Some [Some (testObject ''0.jpg'' 0), Some (testObject ''1.jpg'' 100)],
       IsTruncated = True, NextContinuationToken = Some ''token-2'', CommonPrefixes = None\<rparr>,
      \<lparr>Contents = Some [Some (testObject ''2.jpg'' 200), Some (testObject ''3.jpg'' 300)],
       IsTruncated = True, NextContinuationToken = Some ''token-4'', CommonPrefixes = None\<rparr>,
      \<lparr>Contents = Some [Some (testObject ''4.jpg'' 400), Some (testObject ''5.jpg'' 500)],
       IsTruncated = False, NextContinuationToken = None, CommonPrefixes = None\<rparr>]"

lemma expected_pages:
  assumes "pages \<noteq> []"
    and "\<forall>p \<in> set (butlast pages). IsTruncated p"
    and "\<not> IsTruncated (last pages)"
    and "\<forall>p \<in> set pages. Contents p \<noteq> None \<and> prefixesOk p"
  shows "expected (map Inr pages @ later) = concat (map items pages)"
    and "fate (map Inr pages @ later) = PushEnd"
  using assms
proof (induction pages)
  case Nil
  { case 1 then show ?case by simp }
  { case 2 then show ?case by simp }
next
  case (Cons p ps)
  { case 1
    then show ?case using Cons.IH(1) by (cases "ps = []") (auto simp: items_def) }
  { case 2
    then show ?case using Cons.IH(2) by (cases "ps = []") (auto simp: items_def) }
qed

lemma todo_initial [simp]: "todo (S3ListBucketStream script b pre args) = expected script"
  by (simp add: todo_def S3ListBucketStream_def)

lemma fateOf_initial [simp]: "fateOf (S3ListBucketStream script b pre args) = fate script"
  by (simp add: fateOf_def S3ListBucketStream_def)

lemma initial_fields [simp]:
  "stopped (S3ListBucketStream script b pre args)"
  "events (S3ListBucketStream script b pre args) = []"
  "lastResponse (S3ListBucketStream script b pre args) = None"
  "s3 (S3ListBucketStream script b pre args) = script"
  by (simp_all add: S3ListBucketStream_def)

text \<open>
  C1. When the provider returns the pages P1, ..., Pn, all truncated but the last, each
  with its list of items, a consumer that keeps pulling receives exactly the items of
  P1, then those of P2, and so on to Pn, each page in its own order, whatever the
  answers of \<^verbatim>\<open>push\<close> are; the run closes with the end signal.
\<close>

theorem stream_emits_all_pages_in_order:
  assumes "pages \<noteq> []"
    and "\<forall>p \<in> set (butlast pages). IsTruncated p"
    and "\<not> IsTruncated (last pages)"
    and "\<forall>p \<in> set pages. Contents p \<noteq> None \<and> prefixesOk p"
  shows "pushedOf (events (drain ok (S3ListBucketStream (map Inr pages @ later) b pre args)))
           = concat (map items pages)
       \<and> filter terminal (events (drain ok (S3ListBucketStream (map Inr pages @ later) b pre args)))
           = [PushEnd]
       \<and> last (events (drain ok (S3ListBucketStream (map Inr pages @ later) b pre args))) = PushEnd"
proof -
  let ?s = "S3ListBucketStream (map Inr pages @ later) b pre args"
  have "pushedOf (events (drain ok ?s)) = expected (map Inr pages @ later)"
    using drain_todo[of ?s ok] by simp
  moreover have "filter terminal (events (drain ok ?s)) = [fate (map Inr pages @ later)]"
    and "last (events (drain ok ?s)) = fate (map Inr pages @ later)"
    using drain_fate[of ?s ok] by simp_all
  ultimately show ?thesis using expected_pages[OF assms, of later] by simp
qed

theorem stream_emits_all_pages_in_order_witness:
  "pushedOf (events (drain (\<lambda>k. k \<noteq> 0)
       (S3ListBucketStream (map Inr testPages @ []) ''some-bucket'' ''/some/prefix'' [''MaxKeys'' \<mapsto> Num 2])))
     = [CObj (testObject ''0.jpg'' 0), CObj (testObject ''1.jpg'' 100),
        CObj (testObject ''2.jpg'' 200), CObj (testObject ''3.jpg'' 300),
        CObj (testObject ''4.jpg'' 400), CObj (testObject ''5.jpg'' 500)]"
  using stream_emits_all_pages_in_order [where pages = testPages and ok = "\<lambda>k. k \<noteq> 0" and later = "[]" and b = "''some-bucket''" and pre = "''/some/prefix''" and args = "[''MaxKeys'' \<mapsto> Num 2]"]
  by (simp add: testPages_def items_def prefixesOk_def)

section \<open>Error propagation\<close>

lemma expected_failing:
  assumes "\<forall>p \<in> set pages. IsTruncated p \<and> Contents p \<noteq> None \<and> prefixesOk p"
  shows "expected (map Inr pages @ Inl cause # later) = concat (map items pages)"
    and "fate (map Inr pages @ Inl cause # later) = ErrorEv (ProviderError cause)"
  using assms by (induction pages) (auto simp: items_def)

lemma read_running: "\<not> stopped s \<Longrightarrow> (read ok ^^ n) s = s"
  by (induction n) (simp_all add: read_def)

text \<open>
  C5. When the first m - 1 fetches succeed with truncated pages and the m-th fetch
  fails, a consumer that keeps pulling has received exactly the items of the pages
  1 to m - 1; one closing notification fires, the error with the provider's cause, and
  it is the last thing the stream does: any number of further pulls leaves the stream
  as it is.
\<close>

theorem provider_failure_is_final:
  assumes "\<forall>p \<in> set pages. IsTruncated p \<and> Contents p \<noteq> None \<and> prefixesOk p"
    and "f = drain ok (S3ListBucketStream (map Inr pages @ Inl cause # later) b pre args)"
  shows "pushedOf (events f) = concat (map items pages)
       \<and> filter terminal (events f) = [ErrorEv (ProviderError cause)]
       \<and> last (events f) = ErrorEv (ProviderError cause)
       \<and> (read ok' ^^ n) f = f"
proof -
  let ?script = "map Inr pages @ Inl cause # later"
  let ?s = "S3ListBucketStream ?script b pre args"
  have "pushedOf (events f) = expected ?script"
    using drain_todo[of ?s ok] assms(2) by simp
  moreover have "filter terminal (events f) = [fate ?script]" and "last (events f) = fate ?script"
    using drain_fate[of ?s ok] assms(2) by simp_all
  moreover have "(read ok' ^^ n) f = f"
    using drain_running[of ok ?s] assms(2) by (simp add: read_running)
  ultimately show ?thesis using expected_failing[OF assms(1), of cause later] by simp
qed

theorem provider_failure_is_final_witness:
  "pushedOf (events (drain (\<lambda>k. k \<noteq> 1)
       (S3ListBucketStream (map Inr (take 2 testPages) @ Inl ''some error'' # []) ''some-bucket'' ''/some/prefix'' Map.empty)))
     = [CObj (testObject ''0.jpg'' 0), CObj (testObject ''1.jpg'' 100),
        CObj (testObject ''2.jpg'' 200), CObj (testObject ''3.jpg'' 300)]
   \<and> filter terminal (events (drain (\<lambda>k. k \<noteq> 1)
       (S3ListBucketStream (map Inr (take 2 testPages) @ Inl ''some error'' # []) ''some-bucket'' ''/some/prefix'' Map.empty)))
     = [ErrorEv (ProviderError ''some error'')]"
  using provider_failure_is_final [where pages = "take 2 testPages" and ok = "\<lambda>k. k \<noteq> 1" and later = "[]"
      and cause = "''some error''" and b = "''some-bucket''" and pre = "''/some/prefix''" and args = Map.empty, OF _ refl]
  by (simp add: testPages_def items_def prefixesOk_def)

section \<open>Termination condition\<close>

text \<open>A response is held, the cursor has reached the end of its items, and it is not truncated.\<close>

definition exhaustedLast :: "stream \<Rightarrow> bool" where
  "exhaustedLast s =
     (case lastResponse s of
        None \<Rightarrow> False
      | Some r \<Rightarrow>
          (case Contents r of
             None \<Rightarrow> False
           | Some xs \<Rightarrow> length xs \<le> currentIndex s \<and> \<not> IsTruncated r))"

text \<open>The events that a step added to the log.\<close>

definition newEvents :: "'a stream_scheme \<Rightarrow> 'a stream_scheme \<Rightarrow> event list" where
  "newEvents s s' = drop (length (events s)) (events s')"

lemma emitPrefixList_events:
  "emitPrefixList cps s = (r, s') \<Longrightarrow>
     \<exists>es. events s' = events s @ es \<and> PushEnd \<notin> set es"
  by (induction cps s rule: emitPrefixList.induct) auto

lemma emitPrefixes_events:
  "emitPrefixes s = (r, s') \<Longrightarrow> \<exists>es. events s' = events s @ es \<and> PushEnd \<notin> set es"
  by (auto simp: emitPrefixes_def split: option.splits dest: emitPrefixList_events)

lemma loadNextPage_events:
  "loadNextPage s = (r, s') \<Longrightarrow> \<exists>es. events s' = events s @ es \<and> PushEnd \<notin> set es"
  by (cases "s3 s" rule: listObjectsV2.cases) (auto simp: loadNextPage_def Let_def)

lemma pushChunk_events:
  "pushChunk ok s = (r, s') \<Longrightarrow> \<exists>es. events s' = events s @ es \<and> PushEnd \<notin> set es"
  by (auto simp: pushChunk_def push_def Let_def split: option.splits bool.splits if_splits)

lemma iteration_end:
  "exhaustedLast s \<Longrightarrow>
     iteration ok s = (Inr False, s\<lparr>events := events s @ [PushEnd], pushes := pushes s + 1\<rparr>)"
  by (auto simp: exhaustedLast_def iteration_def needsPage_def isOver_def pushNull_def split: option.splits)

lemma iteration_no_end:
  assumes "\<not> exhaustedLast s" "iteration ok s = (res, s')"
  shows "\<exists>es. events s' = events s @ es \<and> PushEnd \<notin> set es"
proof (cases "needsPage s")
  case (Inl e)
  with assms show ?thesis by (simp add: iteration_def)
next
  case (Inr b)
  show ?thesis
  proof (cases b)
    case False
    with Inr assms show ?thesis by (auto simp: iteration_def dest: pushChunk_events)
  next
    case True
    with Inr assms(1) have no: "\<not> isOver s"
      by (auto simp: exhaustedLast_def needsPage_def isOver_def split: option.splits)
    obtain le s1 where l: "loadNextPage s = (le, s1)" by (cases "loadNextPage s")
    obtain pe s2 where e: "emitPrefixes s1 = (pe, s2)" by (cases "emitPrefixes s1")
    obtain pr s4 where p: "pushChunk ok s2 = (pr, s4)" by (cases "pushChunk ok s2")
    from loadNextPage_events[OF l] emitPrefixes_events[OF e] pushChunk_events[OF p]
    obtain e1 e2 e3 where
      "events s1 = events s @ e1" "PushEnd \<notin> set e1"
      "events s2 = events s1 @ e2" "PushEnd \<notin> set e2"
      "events s4 = events s2 @ e3" "PushEnd \<notin> set e3" by blast
    with True Inr no l e p assms(2) show ?thesis
      by (auto simp: iteration_def split: option.splits)
  qed
qed

lemma iteration_keeps_open:
  assumes "iteration ok s = (res, s')" "res \<noteq> Inr False" "PushEnd \<notin> set (events s)"
  shows "PushEnd \<notin> set (events s')"
proof (cases "exhaustedLast s")
  case True
  with iteration_end[of s ok] assms show ?thesis by simp
next
  case False
  from iteration_no_end[OF False assms(1)] assms(3) show ?thesis by auto
qed

lemma loop_end:
  "\<not> stopped s \<Longrightarrow> PushEnd \<notin> set (events s) \<Longrightarrow> PushEnd \<in> set (events (startRead_loop ok s)) \<Longrightarrow>
     exhaustedLast (startRead_loop ok s) \<and> last (events (startRead_loop ok s)) = PushEnd \<and>
     \<not> stopped (startRead_loop ok s)"
proof (induction ok s rule: startRead_loop.induct)
  case (1 ok s)
  obtain res s' where it: "iteration ok s = (res, s')" by (cases "iteration ok s")
  show ?case
  proof (cases res)
    case (Inl e)
    with it have "startRead_loop ok s = s'\<lparr>events := events s' @ [ErrorEv e]\<rparr>"
      by (simp add: startRead_loop.simps[of ok s])
    with "1.prems"(3) iteration_keeps_open[OF it _ "1.prems"(2)] Inl show ?thesis by simp
  next
    case (Inr b)
    show ?thesis
    proof (cases b)
      case True
      with Inr it have eq: "startRead_loop ok s = startRead_loop ok s'"
        by (simp add: startRead_loop.simps[of ok s])
      from True Inr it iteration_stopped[OF it] 1 have ns: "\<not> stopped s'" by simp
      from iteration_keeps_open[OF it _ "1.prems"(2)] Inr True have "PushEnd \<notin> set (events s')" by simp
      with "1.IH"[OF it[symmetric] Inr _ ns] True "1.prems"(3) show ?thesis by (simp add: eq)
    next
      case False
      with Inr it have eq: "startRead_loop ok s = s'"
        by (simp add: startRead_loop.simps[of ok s])
      have ex: "exhaustedLast s"
      proof (rule ccontr)
        assume "\<not> exhaustedLast s"
        from iteration_no_end[OF this it] "1.prems"(2,3) eq show False by auto
      qed
      from iteration_end[OF ex, of ok] it have "s' = s\<lparr>events := events s @ [PushEnd], pushes := pushes s + 1\<rparr>"
        by simp
      with ex "1.prems"(1) show ?thesis by (auto simp: eq exhaustedLast_def split: option.splits)
    qed
  qed
qed

text \<open>Once the end signal is in the log, it is the last event and the stream stays as it is.\<close>

definition endedProperly :: "stream \<Rightarrow> bool" where
  "endedProperly s =
     (PushEnd \<in> set (events s) \<longrightarrow>
        exhaustedLast s \<and> last (events s) = PushEnd \<and> \<not> stopped s)"

lemma read_endedProperly: "endedProperly s \<Longrightarrow> endedProperly (read ok s)"
proof (cases "stopped s")
  case False
  then show "endedProperly s \<Longrightarrow> endedProperly (read ok s)" by (simp add: read_def)
next
  case True
  assume "endedProperly s"
  with True have no: "PushEnd \<notin> set (events s)" by (auto simp: endedProperly_def)
  let ?s1 = "s\<lparr>stopped := False, events := events s @ [Restarted]\<rparr>"
  from loop_end[of ?s1 ok] no True show "endedProperly (read ok s)"
    by (simp add: endedProperly_def read_def startRead_def)
qed

lemma reads_endedProperly: "endedProperly s \<Longrightarrow> endedProperly ((read ok ^^ n) s)"
  by (induction n) (simp_all add: read_endedProperly)

text \<open>
  C2. A round of the loop signals the end of the stream exactly when a response is
  held, the cursor has exhausted its items and the response is not truncated. The loop
  then returns at once (no fetch, no item), and a later pull does nothing. Over any
  number of pulls of a new stream the end signal, when it is in the log, is the last
  event and was given in such a state.
\<close>

theorem end_iff_last_page_exhausted:
  "(PushEnd \<in> set (newEvents s (snd (iteration ok s)))) = exhaustedLast s
   \<and> (exhaustedLast s \<and> \<not> stopped s \<longrightarrow>
        startRead_loop ok s = s\<lparr>events := events s @ [PushEnd], pushes := pushes s + 1\<rparr>
        \<and> read ok' (startRead_loop ok s) = startRead_loop ok s)
   \<and> endedProperly ((read ok ^^ n) (S3ListBucketStream script b pre args))"
proof (intro conjI impI)
  show "(PushEnd \<in> set (newEvents s (snd (iteration ok s)))) = exhaustedLast s"
  proof (cases "exhaustedLast s")
    case True
    with iteration_end[OF True, of ok] show ?thesis by (simp add: newEvents_def)
  next
    case False
    obtain res s' where it: "iteration ok s = (res, s')" by (cases "iteration ok s")
    from iteration_no_end[OF False it] it False show ?thesis by (auto simp: newEvents_def)
  qed
next
  assume a: "exhaustedLast s \<and> \<not> stopped s"
  with iteration_end[of s ok]
  show l: "startRead_loop ok s = s\<lparr>events := events s @ [PushEnd], pushes := pushes s + 1\<rparr>"
    by (simp add: startRead_loop.simps[of ok s])
  from a show "read ok' (startRead_loop ok s) = startRead_loop ok s"
    by (simp add: l read_def)
next
  show "endedProperly ((read ok ^^ n) (S3ListBucketStream script b pre args))"
    by (rule reads_endedProperly) (simp add: endedProperly_def)
qed

theorem end_iff_last_page_exhausted_witness:
  "exhaustedLast ((S3ListBucketStream [] ''b'' ''p'' Map.empty)
       \<lparr>lastResponse := Some (last testPages), currentIndex := 2, stopped := False\<rparr>)
   \<and> startRead_loop (\<lambda>k. True) ((S3ListBucketStream [] ''b'' ''p'' Map.empty)
       \<lparr>lastResponse := Some (last testPages), currentIndex := 2, stopped := False\<rparr>)
     = (S3ListBucketStream [] ''b'' ''p'' Map.empty)
       \<lparr>lastResponse := Some (last testPages), currentIndex := 2, stopped := False,
        events := [PushEnd], pushes := 1\<rparr>
   \<and> PushEnd \<in> set (events ((read (\<lambda>k. True) ^^ 1) (S3ListBucketStream (map Inr testPages) ''b'' ''p'' Map.empty)))
   \<and> exhaustedLast ((read (\<lambda>k. True) ^^ 1) (S3ListBucketStream (map Inr testPages) ''b'' ''p'' Map.empty))
   \<and> last (events ((read (\<lambda>k. True) ^^ 1) (S3ListBucketStream (map Inr testPages) ''b'' ''p'' Map.empty))) = PushEnd"
proof -
  let ?s = "(S3ListBucketStream [] ''b'' ''p'' Map.empty)
       \<lparr>lastResponse := Some (last testPages), currentIndex := 2, stopped := False\<rparr>"
  have h1: "exhaustedLast ?s \<and> \<not> stopped ?s"
    by (simp add: exhaustedLast_def testPages_def S3ListBucketStream_def)
  have h2: "PushEnd \<in> set (events ((read (\<lambda>k. True) ^^ 1) (S3ListBucketStream (map Inr testPages) ''b'' ''p'' Map.empty)))"
    by (simp add: testPages_def S3ListBucketStream_def read_def startRead_def startRead_loop.simps
        iteration_def needsPage_def isOver_def loadNextPage_def pushChunk_def push_def pushNull_def
        emitPrefixes_def Let_def)
  from end_iff_last_page_exhausted [where s = ?s and ok = "\<lambda>k. True" and n = 1
      and script = "map Inr testPages" and b = "''b''" and pre = "''p''" and args = Map.empty] h1 h2
  show ?thesis by (simp add: endedProperly_def S3ListBucketStream_def)
qed

section \<open>Nullish entries\<close>

text \<open>A page with its nullish entries taken out, and a provider script so cleaned.\<close>

definition withoutNullish :: "response \<Rightarrow> response" where
  "withoutNullish r = r\<lparr>Contents := map_option (\<lambda>xs. map Some (present xs)) (Contents r)\<rparr>"

lemma present_map_Some [simp]: "present (map Some xs) = xs"
  by (induction xs) simp_all

lemma expected_withoutNullish:
  "expected (map (map_sum id withoutNullish) script) = expected script"
  by (induction script rule: expected.induct)
     (auto simp: withoutNullish_def prefixesOk_def split: option.splits)

lemma fate_withoutNullish:
  "fate (map (map_sum id withoutNullish) script) = fate script"
  by (induction script rule: fate.induct)
     (auto simp: withoutNullish_def prefixesOk_def split: option.splits)

lemma expected_objects: "CNullish \<notin> set (expected script)"
proof (induction script)
  case Nil
  then show ?case by simp
next
  case (Cons a script)
  then show ?case by (cases a) (auto split: option.splits)
qed

text \<open>
  C7. A nullish entry at the cursor is passed over: the round pushes nothing, throws
  nothing, moves the cursor one forward and the loop goes on. Over a whole run no
  nullish chunk is ever pushed, and the nullish entries of the pages change neither
  what is pushed nor how the stream closes.
\<close>

theorem nullish_entry_is_skipped:
  assumes "lastResponse s = Some r" and "Contents r = Some xs"
    and "currentIndex s < length xs" and "xs ! currentIndex s = None"
  shows "iteration ok s = (Inr True, s\<lparr>currentIndex := currentIndex s + 1\<rparr>)
       \<and> CNullish \<notin> set (pushedOf (events (drain ok (S3ListBucketStream script b pre args))))
       \<and> pushedOf (events (drain ok (S3ListBucketStream script b pre args)))
           = pushedOf (events (drain ok' (S3ListBucketStream (map (map_sum id withoutNullish) script) b pre args)))
       \<and> filter terminal (events (drain ok (S3ListBucketStream script b pre args)))
           = filter terminal (events (drain ok' (S3ListBucketStream (map (map_sum id withoutNullish) script) b pre args)))"
proof (intro conjI)
  from assms show "iteration ok s = (Inr True, s\<lparr>currentIndex := currentIndex s + 1\<rparr>)"
    by (simp add: iteration_def needsPage_def pushChunk_def Let_def)
next
  let ?s = "S3ListBucketStream script b pre args"
  let ?c = "S3ListBucketStream (map (map_sum id withoutNullish) script) b pre args"
  have p: "pushedOf (events (drain ok ?s)) = expected script"
    using drain_todo[of ?s ok] by simp
  then show "CNullish \<notin> set (pushedOf (events (drain ok ?s)))"
    by (simp add: expected_objects)
  from p drain_todo[of ?c ok'] show "pushedOf (events (drain ok ?s)) = pushedOf (events (drain ok' ?c))"
    by (simp add: expected_withoutNullish)
  from drain_fate[of ?s ok] drain_fate[of ?c ok']
  show "filter terminal (events (drain ok ?s)) = filter terminal (events (drain ok' ?c))"
    by (simp add: fate_withoutNullish)
qed

text \<open>A page whose first entry is nullish.\<close>

definition holedPage :: response where
  "holedPage =
     \<lparr>Contents = Some [None, Some (testObject ''1.jpg'' 100)],
      IsTruncated = False, NextContinuationToken = None, CommonPrefixes = None\<rparr>"

theorem nullish_entry_is_skipped_witness:
  "fst (iteration (\<lambda>k. True)
      ((S3ListBucketStream [] ''b'' ''p'' Map.empty)\<lparr>lastResponse := Some holedPage, stopped := False\<rparr>))
     = Inr True
   \<and> currentIndex (snd (iteration (\<lambda>k. True)
      ((S3ListBucketStream [] ''b'' ''p'' Map.empty)\<lparr>lastResponse := Some holedPage, stopped := False\<rparr>)))
     = 1
   \<and> events (snd (iteration (\<lambda>k. True)
      ((S3ListBucketStream [] ''b'' ''p'' Map.empty)\<lparr>lastResponse := Some holedPage, stopped := False\<rparr>)))
     = []
   \<and> pushedOf (events (drain (\<lambda>k. True) (S3ListBucketStream [Inr holedPage] ''b'' ''p'' Map.empty)))
       = [CObj (testObject ''1.jpg'' 100)]"
proof -
  let ?s = "(S3ListBucketStream [] ''b'' ''p'' Map.empty)\<lparr>lastResponse := Some holedPage, stopped := False\<rparr>"
  have h: "lastResponse ?s = Some holedPage"
    "Contents holedPage = Some [None, Some (testObject ''1.jpg'' 100)]"
    "currentIndex ?s < length [None, Some (testObject ''1.jpg'' 100)]"
    "[None, Some (testObject ''1.jpg'' 100)] ! currentIndex ?s = None"
    by (simp_all add: holedPage_def S3ListBucketStream_def)
  note T = nullish_entry_is_skipped [OF h, where ok = "\<lambda>k. True" and ok' = "\<lambda>k. True"
      and script = "[Inr holedPage]" and b = "''b''" and pre = "''p''" and args = Map.empty]
  have e: "expected [Inr (withoutNullish holedPage)] = [CObj (testObject ''1.jpg'' 100)]"
    by (simp add: holedPage_def withoutNullish_def prefixesOk_def)
  have a: "iteration (\<lambda>k. True) ?s = (Inr True, ?s\<lparr>currentIndex := currentIndex ?s + 1\<rparr>)"
    using T by simp
  have b: "pushedOf (events (drain (\<lambda>k. True) (S3ListBucketStream [Inr holedPage] ''b'' ''p'' Map.empty)))
       = [CObj (testObject ''1.jpg'' 100)]"
    using T drain_todo [of "S3ListBucketStream [Inr (withoutNullish holedPage)] ''b'' ''p'' Map.empty" "\<lambda>k. True"] e
    by simp
  show ?thesis by (simp add: a b) (simp add: S3ListBucketStream_def)
qed

section \<open>Pagination chaining\<close>

text \<open>The requests sent to the provider and the data of the pages received, in order.\<close>

fun requestsOf :: "event list \<Rightarrow> dict list" where
  "requestsOf [] = []"
| "requestsOf (Request p # es) = p # requestsOf es"
| "requestsOf (e # es) = requestsOf es"

fun pagesOf :: "event list \<Rightarrow> response option list" where
  "pagesOf [] = []"
| "pagesOf (Page p d # es) = d # pagesOf es"
| "pagesOf (e # es) = pagesOf es"

text \<open>The next-token field of a response, as a JavaScript value.\<close>

definition tokenOf :: "response option \<Rightarrow> jsval" where
  "tokenOf d =
     (case d of
        None \<Rightarrow> Undefined
      | Some r \<Rightarrow> (case NextContinuationToken r of None \<Rightarrow> Undefined | Some t \<Rightarrow> Str t))"

definition sentTokens :: "stream \<Rightarrow> jsval option list" where
  "sentTokens s = map (\<lambda>p. p ''ContinuationToken'') (requestsOf (events s))"

definition nextTokens :: "stream \<Rightarrow> jsval list" where
  "nextTokens s = map tokenOf (pagesOf (events s))"

text \<open>
  The tokens sent are the chain of the tokens received, after an \<^verbatim>\<open>undefined\<close> first one;
  and, between fetches, as many pages were received as requests were sent and the held
  response is the last of them.
\<close>

definition chained :: "stream \<Rightarrow> bool" where
  "chained s = (sentTokens s = take (length (sentTokens s)) (Some Undefined # map Some (nextTokens s)))"

definition synced :: "stream \<Rightarrow> bool" where
  "synced s =
     (length (sentTokens s) = length (nextTokens s) \<and>
      tokenOf (lastResponse s) = last (Undefined # nextTokens s))"

lemma requestsOf_append [simp]: "requestsOf (es @ fs) = requestsOf es @ requestsOf fs"
  by (induction es rule: requestsOf.induct) auto

lemma pagesOf_append [simp]: "pagesOf (es @ fs) = pagesOf es @ pagesOf fs"
  by (induction es rule: pagesOf.induct) auto

lemma emitPrefixList_traffic:
  "emitPrefixList cps s = (r, s') \<Longrightarrow>
     requestsOf (events s') = requestsOf (events s) \<and> pagesOf (events s') = pagesOf (events s)"
  by (induction cps s rule: emitPrefixList.induct) auto

lemma emitPrefixes_traffic:
  "emitPrefixes s = (r, s') \<Longrightarrow>
     requestsOf (events s') = requestsOf (events s) \<and> pagesOf (events s') = pagesOf (events s)"
  by (auto simp: emitPrefixes_def split: option.splits dest: emitPrefixList_traffic)

lemma pushChunk_traffic:
  "pushChunk ok s = (r, s') \<Longrightarrow>
     requestsOf (events s') = requestsOf (events s) \<and> pagesOf (events s') = pagesOf (events s) \<and>
     lastResponse s' = lastResponse s"
  by (auto simp: pushChunk_def push_def Let_def split: option.splits bool.splits if_splits)

lemma request_token:
  "(listObjectsV2args s ++ currentParams s) ''ContinuationToken'' = Some (tokenOf (lastResponse s))"
  by (simp add: currentParams_def tokenOf_def map_add_def)

lemma loadNextPage_traffic:
  assumes "loadNextPage s = (r, s')"
  shows "requestsOf (events s') = requestsOf (events s) @ [listObjectsV2args s ++ currentParams s]"
    and "r \<noteq> None \<Longrightarrow> pagesOf (events s') = pagesOf (events s)"
    and "r = None \<Longrightarrow> pagesOf (events s') = pagesOf (events s) @ [lastResponse s']"
  using assms
  by (cases "s3 s" rule: listObjectsV2.cases; auto simp: loadNextPage_def Let_def)+

text \<open>What a round of the loop does to the traffic with the provider.\<close>

lemma iteration_traffic:
  assumes "iteration ok s = (res, s')"
  shows "(requestsOf (events s') = requestsOf (events s) \<and> pagesOf (events s') = pagesOf (events s) \<and>
          lastResponse s' = lastResponse s)
       \<or> ((\<exists>e. res = Inl e) \<and>
          requestsOf (events s') = requestsOf (events s) @ [listObjectsV2args s ++ currentParams s] \<and>
          pagesOf (events s') = pagesOf (events s))
       \<or> (requestsOf (events s') = requestsOf (events s) @ [listObjectsV2args s ++ currentParams s] \<and>
          pagesOf (events s') = pagesOf (events s) @ [lastResponse s'])"
proof (cases "needsPage s")
  case (Inl e)
  with assms show ?thesis by (simp add: iteration_def)
next
  case (Inr b)
  show ?thesis
  proof (cases "b \<and> \<not> isOver s")
    case False
    with Inr assms show ?thesis
      by (cases b) (auto simp: iteration_def pushNull_def dest: pushChunk_traffic)
  next
    case True
    obtain le s1 where l: "loadNextPage s = (le, s1)" by (cases "loadNextPage s")
    note L = loadNextPage_traffic[OF l]
    show ?thesis
    proof (cases le)
      case (Some e)
      with True Inr l assms L show ?thesis by (auto simp: iteration_def)
    next
      case None
      obtain pe s2 where e: "emitPrefixes s1 = (pe, s2)" by (cases "emitPrefixes s1")
      obtain pr s4 where p: "pushChunk ok s2 = (pr, s4)" by (cases "pushChunk ok s2")
      from None True Inr l e p assms have "s' = s2 \<or> s' = s4"
        by (auto simp: iteration_def split: option.splits)
      with L(1) L(3)[OF None] emitPrefixes_traffic[OF e] emitPrefixes_keeps[OF e] pushChunk_traffic[OF p]
      show ?thesis by auto
    qed
  qed
qed

lemma chain_step:
  assumes "rs = take (length rs) (Some Undefined # map Some ns)" and "length rs = length ns"
  shows "rs @ [Some (last (Undefined # ns))] = Some Undefined # map Some ns"
proof -
  let ?L = "Some Undefined # map Some ns"
  have "rs = butlast ?L" using assms by (simp add: butlast_conv_take)
  moreover have "last ?L = Some (last (Undefined # ns))" by (simp add: last_map)
  ultimately show ?thesis using append_butlast_last_id[of ?L] by simp
qed

lemma chained_cong:
  "requestsOf (events a) = requestsOf (events b) \<Longrightarrow> pagesOf (events a) = pagesOf (events b) \<Longrightarrow>
     chained a = chained b"
  by (simp add: chained_def sentTokens_def nextTokens_def)

lemma synced_cong:
  "requestsOf (events a) = requestsOf (events b) \<Longrightarrow> pagesOf (events a) = pagesOf (events b) \<Longrightarrow>
     lastResponse a = lastResponse b \<Longrightarrow> synced a = synced b"
  by (simp add: synced_def sentTokens_def nextTokens_def)

lemma iteration_chained:
  assumes "iteration ok s = (res, s')" "chained s" "synced s"
  shows "chained s' \<and> ((\<forall>e. res \<noteq> Inl e) \<longrightarrow> synced s')"
proof -
  let ?p = "listObjectsV2args s ++ currentParams s"
  let ?L = "Some Undefined # map Some (nextTokens s)"
  have c: "sentTokens s = take (length (sentTokens s)) ?L"
    using assms(2) unfolding chained_def .
  have l: "length (sentTokens s) = length (nextTokens s)"
    and t: "tokenOf (lastResponse s) = last (Undefined # nextTokens s)"
    using assms(3) unfolding synced_def by blast+
  have st: "sentTokens s @ [Some (tokenOf (lastResponse s))] = ?L"
    unfolding t by (rule chain_step[OF c l])
  from iteration_traffic[OF assms(1)] show ?thesis
  proof (elim disjE conjE exE)
    assume "requestsOf (events s') = requestsOf (events s)" "pagesOf (events s') = pagesOf (events s)"
      "lastResponse s' = lastResponse s"
    note same = this
    have "chained s' = chained s" by (rule chained_cong) (rule same)+
    moreover have "synced s' = synced s" by (rule synced_cong) (rule same)+
    ultimately have "chained s' = chained s" "synced s' = synced s" .
    with assms(2,3) show ?thesis by simp
  next
    fix e assume r: "res = Inl e" "requestsOf (events s') = requestsOf (events s) @ [?p]"
      "pagesOf (events s') = pagesOf (events s)"
    have s1: "sentTokens s' = sentTokens s @ [Some (tokenOf (lastResponse s))]"
      using r(2) by (simp add: sentTokens_def request_token)
    have n1: "nextTokens s' = nextTokens s" using r(3) by (simp add: nextTokens_def)
    have "chained s'" unfolding chained_def s1 n1 st by simp
    with r(1) show ?thesis by simp
  next
    assume r: "requestsOf (events s') = requestsOf (events s) @ [?p]"
      "pagesOf (events s') = pagesOf (events s) @ [lastResponse s']"
    have s1: "sentTokens s' = sentTokens s @ [Some (tokenOf (lastResponse s))]"
      using r(1) by (simp add: sentTokens_def request_token)
    have n1: "nextTokens s' = nextTokens s @ [tokenOf (lastResponse s')]"
      using r(2) by (simp add: nextTokens_def)
    have "chained s'" unfolding chained_def s1 n1 st by simp
    moreover have "synced s'" unfolding synced_def s1 n1 using l by simp
    ultimately show ?thesis by simp
  qed
qed

lemma loop_chained:
  "\<not> stopped s \<Longrightarrow> chained s \<Longrightarrow> synced s \<Longrightarrow>
     chained (startRead_loop ok s) \<and> (stopped (startRead_loop ok s) \<longrightarrow> synced (startRead_loop ok s))"
proof (induction ok s rule: startRead_loop.induct)
  case (1 ok s)
  obtain res s' where it: "iteration ok s = (res, s')" by (cases "iteration ok s")
  note C = iteration_chained[OF it "1.prems"(2,3)]
  show ?case
  proof (cases res)
    case (Inl e)
    with it have eq: "startRead_loop ok s = s'\<lparr>events := events s' @ [ErrorEv e]\<rparr>"
      by (simp add: startRead_loop.simps[of ok s])
    have "chained (s'\<lparr>events := events s' @ [ErrorEv e]\<rparr>) = chained s'"
      by (rule chained_cong) simp_all
    with C iteration_stopped[OF it] Inl "1.prems"(1) show ?thesis by (simp add: eq)
  next
    case (Inr b)
    show ?thesis
    proof (cases b)
      case True
      with Inr it have eq: "startRead_loop ok s = startRead_loop ok s'"
        by (simp add: startRead_loop.simps[of ok s])
      from True Inr it iteration_stopped[OF it] 1 have ns: "\<not> stopped s'" by simp
      from "1.IH"[OF it[symmetric] Inr _ ns] True C Inr show ?thesis by (simp add: eq)
    next
      case False
      with Inr it have eq: "startRead_loop ok s = s'"
        by (simp add: startRead_loop.simps[of ok s])
      with C Inr show ?thesis by simp
    qed
  qed
qed

lemma read_chained:
  assumes "chained s \<and> (stopped s \<longrightarrow> synced s)"
  shows "chained (read ok s) \<and> (stopped (read ok s) \<longrightarrow> synced (read ok s))"
proof (cases "stopped s")
  case False
  with assms show ?thesis by (simp add: read_def)
next
  case True
  let ?s1 = "s\<lparr>stopped := False, events := events s @ [Restarted]\<rparr>"
  have "chained ?s1 = chained s" "synced ?s1 = synced s"
    by (rule chained_cong, simp, simp) (rule synced_cong, simp_all)
  with assms True have "chained ?s1" "synced ?s1" by simp_all
  with loop_chained[of ?s1 ok] True show ?thesis by (simp add: read_def startRead_def)
qed

lemma reads_chained:
  "chained s \<and> (stopped s \<longrightarrow> synced s) \<Longrightarrow>
     chained ((read ok ^^ n) s) \<and> (stopped ((read ok ^^ n) s) \<longrightarrow> synced ((read ok ^^ n) s))"
  by (induction n) (simp_all add: read_chained)

lemma initial_chained:
  "chained (S3ListBucketStream script b pre args)" "synced (S3ListBucketStream script b pre args)"
  by (simp_all add: chained_def synced_def sentTokens_def nextTokens_def tokenOf_def)

text \<open>
  C3. Over any number of pulls of a new stream, with any provider and any extra
  request arguments: the first request carries the token \<^verbatim>\<open>undefined\<close> (also when the
  extra arguments hold a token), and the request number i + 1 carries the next token
  of the response number i.
\<close>

theorem continuation_token_chain:
  assumes "t = (read ok ^^ n) (S3ListBucketStream script b pre args)"
  shows "sentTokens t = take (length (sentTokens t)) (Some Undefined # map Some (nextTokens t))
       \<and> (requestsOf (events t) \<noteq> [] \<longrightarrow>
            (requestsOf (events t) ! 0) ''ContinuationToken'' = Some Undefined)
       \<and> (\<forall>i. i + 1 < length (requestsOf (events t)) \<longrightarrow>
            i < length (pagesOf (events t)) \<and>
            (requestsOf (events t) ! (i + 1)) ''ContinuationToken''
              = Some (tokenOf (pagesOf (events t) ! i)))"
proof -
  let ?L = "Some Undefined # map Some (nextTokens t)"
  have c: "sentTokens t = take (length (sentTokens t)) ?L"
    using reads_chained[where s = "S3ListBucketStream script b pre args" and ok = ok and n = n]
      initial_chained[of script b pre args]
    unfolding assms chained_def by blast
  have len: "length (sentTokens t) \<le> length ?L"
  proof -
    have "length (sentTokens t) = length (take (length (sentTokens t)) ?L)" using c by simp
    then show ?thesis by simp
  qed
  have nth: "(requestsOf (events t) ! j) ''ContinuationToken'' = ?L ! j"
    if "j < length (requestsOf (events t))" for j
  proof -
    from that have "j < length (sentTokens t)" by (simp add: sentTokens_def)
    then have "sentTokens t ! j = ?L ! j" by (subst c) simp
    with that show ?thesis by (simp add: sentTokens_def)
  qed
  have first: "requestsOf (events t) \<noteq> [] \<longrightarrow> (requestsOf (events t) ! 0) ''ContinuationToken'' = Some Undefined"
    using nth[of 0] by simp
  have rest: "i < length (pagesOf (events t)) \<and>
      (requestsOf (events t) ! (i + 1)) ''ContinuationToken'' = Some (tokenOf (pagesOf (events t) ! i))"
    if "i + 1 < length (requestsOf (events t))" for i
  proof -
    from that len have i: "i < length (pagesOf (events t))" by (simp add: sentTokens_def nextTokens_def)
    with nth[OF that] show ?thesis by (simp add: nextTokens_def)
  qed
  from c first rest show ?thesis by blast
qed

theorem continuation_token_chain_witness:
  "1 + 1 < length (requestsOf (events ((read (\<lambda>k. True) ^^ 1)
       (S3ListBucketStream (map Inr testPages) ''b'' ''p'' [''ContinuationToken'' \<mapsto> Str ''mine'']))))
   \<and> (requestsOf (events ((read (\<lambda>k. True) ^^ 1)
       (S3ListBucketStream (map Inr testPages) ''b'' ''p'' [''ContinuationToken'' \<mapsto> Str ''mine''])))
        ! 0) ''ContinuationToken'' = Some Undefined
   \<and> (requestsOf (events ((read (\<lambda>k. True) ^^ 1)
       (S3ListBucketStream (map Inr testPages) ''b'' ''p'' [''ContinuationToken'' \<mapsto> Str ''mine''])))
        ! (1 + 1)) ''ContinuationToken'' = Some (Str ''token-4'')"
proof -
  let ?t = "(read (\<lambda>k. True) ^^ 1)
       (S3ListBucketStream (map Inr testPages) ''b'' ''p'' [''ContinuationToken'' \<mapsto> Str ''mine''])"
  have n: "length (requestsOf (events ?t)) = 3"
    by (simp add: testPages_def S3ListBucketStream_def read_def startRead_def startRead_loop.simps
        iteration_def needsPage_def isOver_def loadNextPage_def pushChunk_def push_def pushNull_def
        emitPrefixes_def Let_def)
  have p: "pagesOf (events ?t) = map Some testPages"
    by (simp add: testPages_def S3ListBucketStream_def read_def startRead_def startRead_loop.simps
        iteration_def needsPage_def isOver_def loadNextPage_def pushChunk_def push_def pushNull_def
        emitPrefixes_def Let_def)
  have h0: "requestsOf (events ?t) \<noteq> []" using n by auto
  have h1: "1 + 1 < length (requestsOf (events ?t))" using n by simp
  note T = continuation_token_chain [where ok = "\<lambda>k. True" and n = 1 and script = "map Inr testPages"
      and b = "''b''" and pre = "''p''" and args = "[''ContinuationToken'' \<mapsto> Str ''mine'']", OF refl]
  from T h0 have a: "(requestsOf (events ?t) ! 0) ''ContinuationToken'' = Some Undefined" by blast
  from T h1 have "(requestsOf (events ?t) ! (1 + 1)) ''ContinuationToken'' = Some (tokenOf (pagesOf (events ?t) ! 1))"
    by blast
  then have b: "(requestsOf (events ?t) ! (1 + 1)) ''ContinuationToken'' = Some (Str ''token-4'')"
    unfolding p by (simp add: testPages_def tokenOf_def)
  from h1 a b show ?thesis by blast
qed

section \<open>Backpressure\<close>

text \<open>
  The state of a stream that has just paused: a response is held, the entry before the
  cursor is an object, the last two events are the push of that object and the
  \<^verbatim>\<open>stopped\<close> notification, and the last call of \<^verbatim>\<open>push\<close> answered \<^verbatim>\<open>false\<close>.
\<close>

definition pausedAt :: "(nat \<Rightarrow> bool) \<Rightarrow> stream \<Rightarrow> bool" where
  "pausedAt ok t =
     (case lastResponse t of
        None \<Rightarrow> False
      | Some r \<Rightarrow>
          (case Contents r of
             None \<Rightarrow> False
           | Some xs \<Rightarrow>
               0 < currentIndex t \<and> currentIndex t \<le> length xs \<and>
               (case xs ! (currentIndex t - 1) of
                  None \<Rightarrow> False
                | Some item \<Rightarrow>
                    drop (length (events t) - 2) (events t) = [Push (CObj item), Stopped]) \<and>
               \<not> ok (pushes t - 1)))"

text \<open>The entry of the held response at the cursor.\<close>

definition nextItem :: "stream \<Rightarrow> s3object option" where
  "nextItem t =
     (case lastResponse t of
        None \<Rightarrow> None
      | Some r \<Rightarrow>
          (case Contents r of
             None \<Rightarrow> None
           | Some xs \<Rightarrow> if currentIndex t < length xs then xs ! currentIndex t else None))"

lemma pushChunk_pausedAt:
  assumes "pushChunk ok s = (Inr False, s')"
    and "lastResponse s = Some r" "Contents r = Some xs" "currentIndex s < length xs"
  shows "pausedAt ok s'"
  using assms
  by (auto simp: pushChunk_def push_def pausedAt_def Let_def split: option.splits bool.splits if_splits)

lemma pushChunk_fresh_pausedAt:
  assumes "pushChunk ok s = (Inr False, s')" and "currentIndex s = 0"
  shows "pausedAt ok s'"
  using assms
  by (auto simp: pushChunk_def push_def pausedAt_def Let_def Suc_le_eq
      split: option.splits bool.splits if_splits)

lemma iteration_pausedAt:
  assumes "iteration ok s = (Inr False, s')" "\<not> stopped s" "stopped s'"
  shows "pausedAt ok s'"
proof (cases "needsPage s")
  case (Inl e)
  with assms show ?thesis by (simp add: iteration_def)
next
  case (Inr b)
  show ?thesis
  proof (cases b)
    case False
    with Inr assms have p: "pushChunk ok s = (Inr False, s')" by (simp add: iteration_def)
    from Inr False obtain r xs where "lastResponse s = Some r" "Contents r = Some xs" "currentIndex s < length xs"
      by (auto simp: needsPage_def split: option.splits)
    with p show ?thesis by (rule pushChunk_pausedAt)
  next
    case True
    have "\<not> isOver s"
    proof
      assume "isOver s"
      with True Inr assms(1) have "s' = snd (pushNull ok s)" by (simp add: iteration_def)
      with assms(2,3) show False by (simp add: pushNull_def)
    qed
    with True Inr assms obtain s1 s2 where l: "loadNextPage s = (None, s1)"
      and e: "emitPrefixes s1 = (None, s2)" and p: "pushChunk ok s2 = (Inr False, s')"
      by (auto simp: iteration_def split: if_splits prod.splits option.splits)
    from emitPrefixes_keeps[OF e] loadNextPage_resolved[OF l] have "currentIndex s2 = 0" by simp
    with p show ?thesis by (rule pushChunk_fresh_pausedAt)
  qed
qed

lemma loop_pausedAt:
  "\<not> stopped s \<Longrightarrow> stopped (startRead_loop ok s) \<Longrightarrow> pausedAt ok (startRead_loop ok s)"
proof (induction ok s rule: startRead_loop.induct)
  case (1 ok s)
  obtain res s' where it: "iteration ok s = (res, s')" by (cases "iteration ok s")
  show ?case
  proof (cases res)
    case (Inl e)
    with it 1 iteration_stopped[OF it] show ?thesis
      by (simp add: startRead_loop.simps[of ok s])
  next
    case (Inr b)
    show ?thesis
    proof (cases b)
      case True
      with Inr it have eq: "startRead_loop ok s = startRead_loop ok s'"
        by (simp add: startRead_loop.simps[of ok s])
      from True Inr it iteration_stopped[OF it] 1 have ns: "\<not> stopped s'" by simp
      from "1.IH"[OF it[symmetric] Inr _ ns] True "1.prems" show ?thesis by (simp add: eq)
    next
      case False
      with Inr it have eq: "startRead_loop ok s = s'"
        by (simp add: startRead_loop.simps[of ok s])
      with iteration_pausedAt[of ok s s'] it Inr False 1 show ?thesis by simp
    qed
  qed
qed

lemma iteration_extends: "\<exists>es. events (snd (iteration ok s)) = events s @ es"
proof (cases "exhaustedLast s")
  case True
  from iteration_end[OF True, of ok] show ?thesis by simp
next
  case False
  obtain res s' where it: "iteration ok s = (res, s')" by (cases "iteration ok s")
  from iteration_no_end[OF False it] it show ?thesis by auto
qed

lemma loop_extends: "\<exists>es. events (startRead_loop ok s) = events s @ es"
proof (induction ok s rule: startRead_loop.induct)
  case (1 ok s)
  obtain res s' where it: "iteration ok s = (res, s')" by (cases "iteration ok s")
  from iteration_extends[of ok s] it obtain es where es: "events s' = events s @ es" by auto
  show ?case
  proof (cases res)
    case (Inl e)
    with it es show ?thesis by (simp add: startRead_loop.simps[of ok s])
  next
    case (Inr b)
    show ?thesis
    proof (cases b)
      case True
      from "1.IH"[OF it[symmetric] Inr] True obtain fs where "events (startRead_loop ok s') = events s' @ fs"
        by auto
      with Inr True it es show ?thesis by (simp add: startRead_loop.simps[of ok s])
    next
      case False
      with Inr it es show ?thesis by (simp add: startRead_loop.simps[of ok s])
    qed
  qed
qed

lemma resume_first_push:
  assumes "nextItem s = Some item" "\<not> stopped s"
  shows "\<exists>es. events (startRead_loop ok s) = events s @ Push (CObj item) # es"
proof -
  from assms(1) obtain r xs where h: "lastResponse s = Some r" "Contents r = Some xs"
    "currentIndex s < length xs" "xs ! currentIndex s = Some item"
    by (auto simp: nextItem_def split: option.splits if_splits)
  obtain res s' where it: "iteration ok s = (res, s')" by (cases "iteration ok s")
  with h have p: "pushChunk ok s = (res, s')" by (simp add: iteration_def needsPage_def)
  with h obtain fs where fs: "events s' = events s @ Push (CObj item) # fs" "\<forall>e. res \<noteq> Inl e"
    by (auto simp: pushChunk_def push_def Let_def split: bool.splits)
  show ?thesis
  proof (cases res)
    case (Inl e)
    with fs show ?thesis by simp
  next
    case (Inr b)
    show ?thesis
    proof (cases b)
      case True
      from loop_extends[of ok s'] obtain gs where "events (startRead_loop ok s') = events s' @ gs" by auto
      with Inr True it fs show ?thesis by (simp add: startRead_loop.simps[of ok s])
    next
      case False
      with Inr it fs show ?thesis by (simp add: startRead_loop.simps[of ok s])
    qed
  qed
qed

text \<open>
  A log in which every push that is refused is followed by the \<^verbatim>\<open>stopped\<close> notification
  and by nothing else; \<open>n\<close> is the number of the next call of \<^verbatim>\<open>push\<close>.
\<close>

fun refusalsStop :: "(nat \<Rightarrow> bool) \<Rightarrow> nat \<Rightarrow> event list \<Rightarrow> bool" where
  "refusalsStop ok n [] = True"
| "refusalsStop ok n (Push c # es) = (if ok n then refusalsStop ok (n + 1) es else es = [Stopped])"
| "refusalsStop ok n (e # es) = refusalsStop ok n es"

lemma refusalsStop_quiet:
  "pushedOf pre = [] \<Longrightarrow> refusalsStop ok n (pre @ es) = refusalsStop ok n es"
  by (induction pre rule: pushedOf.induct) simp_all

lemma loadNextPage_pushes: "loadNextPage s = (r, s') \<Longrightarrow> pushes s' = pushes s"
  by (cases "s3 s" rule: listObjectsV2.cases) (auto simp: loadNextPage_def Let_def)

lemma emitPrefixList_pushes: "emitPrefixList cps s = (r, s') \<Longrightarrow> pushes s' = pushes s"
  by (induction cps s rule: emitPrefixList.induct) auto

lemma emitPrefixes_pushes: "emitPrefixes s = (r, s') \<Longrightarrow> pushes s' = pushes s"
  by (auto simp: emitPrefixes_def split: option.splits dest: emitPrefixList_pushes)

text \<open>
  What one read at the cursor can add to the log: nothing, an accepted push, or a
  refused push with the \<^verbatim>\<open>stopped\<close> notification.
\<close>

definition roundShape ::
  "(nat \<Rightarrow> bool) \<Rightarrow> nat \<Rightarrow> event list \<Rightarrow> (error + bool) \<Rightarrow> stream \<Rightarrow> bool" where
  "roundShape ok n es res s' =
     ((pushedOf es = [] \<and> (res = Inr True \<longrightarrow> pushes s' = n))
      \<or> (\<exists>pre c. es = pre @ [Push c] \<and> pushedOf pre = [] \<and> res = Inr True \<and> ok n \<and> pushes s' = n + 1)
      \<or> (\<exists>pre c. es = pre @ [Push c, Stopped] \<and> pushedOf pre = [] \<and> res = Inr False \<and> \<not> ok n \<and>
            stopped s'))"

lemma roundShape_quiet:
  "pushedOf es = [] \<Longrightarrow> (res = Inr True \<longrightarrow> pushes s' = n) \<Longrightarrow> roundShape ok n es res s'"
  by (simp add: roundShape_def)

lemma roundShape_accept:
  "ok n \<Longrightarrow> pushes s' = n + 1 \<Longrightarrow> roundShape ok n [Push c] (Inr True) s'"
  unfolding roundShape_def by (intro disjI2 disjI1 exI[of _ "[]"] exI[of _ c]) simp

lemma roundShape_refuse:
  "\<not> ok n \<Longrightarrow> stopped s' \<Longrightarrow> roundShape ok n [Push c, Stopped] (Inr False) s'"
  unfolding roundShape_def by (intro disjI2 exI[of _ "[]"] exI[of _ c]) simp

lemma pushChunk_shape:
  assumes "pushChunk ok s = (res, s')"
  shows "events s' = events s @ newEvents s s' \<and> roundShape ok (pushes s) (newEvents s s') res s'"
proof (cases "lastResponse s")
  case None
  with assms have "res = Inl (TypeError P_Contents)" "s' = s" by (simp_all add: pushChunk_def)
  then show ?thesis by (simp add: newEvents_def roundShape_quiet)
next
  case (Some r)
  show ?thesis
  proof (cases "Contents r")
    case None
    with Some assms have "res = Inl (TypeError P_element)" "s' = s\<lparr>currentIndex := currentIndex s + 1\<rparr>"
      by (simp_all add: pushChunk_def Let_def)
    then show ?thesis by (simp add: newEvents_def roundShape_quiet)
  next
    case xs: (Some xs)
    show ?thesis
    proof (cases "if currentIndex s < length xs then xs ! currentIndex s else None")
      case None
      with Some xs assms have "res = Inr True" "s' = s\<lparr>currentIndex := currentIndex s + 1\<rparr>"
        by (simp_all add: pushChunk_def Let_def)
      then show ?thesis by (simp add: newEvents_def roundShape_quiet)
    next
      case item: (Some item)
      show ?thesis
      proof (cases "ok (pushes s)")
        case True
        with Some xs item assms have "res = Inr True"
          "s' = s\<lparr>currentIndex := currentIndex s + 1, events := events s @ [Push (CObj item)],
                 pushes := pushes s + 1\<rparr>"
          by (simp_all add: pushChunk_def push_def Let_def)
        with True show ?thesis by (simp add: newEvents_def roundShape_accept)
      next
        case False
        with Some xs item assms have "res = Inr False"
          "s' = s\<lparr>currentIndex := currentIndex s + 1, pushes := pushes s + 1, stopped := True,
                 events := events s @ [Push (CObj item), Stopped]\<rparr>"
          by (simp_all add: pushChunk_def push_def Let_def)
        with False show ?thesis by (simp add: newEvents_def roundShape_refuse)
      qed
    qed
  qed
qed

lemma roundShape_prepend:
  assumes "pushedOf pre = []" and "roundShape ok n es res s'"
  shows "roundShape ok n (pre @ es) res s'"
proof -
  from assms(2) consider
      (quiet) "pushedOf es = []" "res = Inr True \<longrightarrow> pushes s' = n"
    | (accept) p c where "es = p @ [Push c]" "pushedOf p = []" "res = Inr True" "ok n"
        "pushes s' = n + 1"
    | (refuse) p c where "es = p @ [Push c, Stopped]" "pushedOf p = []" "res = Inr False" "\<not> ok n"
        "stopped s'"
    unfolding roundShape_def by blast
  then show ?thesis
  proof cases
    case quiet
    with assms(1) show ?thesis by (simp add: roundShape_def)
  next
    case accept
    have "pre @ es = (pre @ p) @ [Push c]" "pushedOf (pre @ p) = []"
      using accept(1,2) assms(1) by simp_all
    with accept(3-5) show ?thesis unfolding roundShape_def by blast
  next
    case refuse
    have "pre @ es = (pre @ p) @ [Push c, Stopped]" "pushedOf (pre @ p) = []"
      using refuse(1,2) assms(1) by simp_all
    with refuse(3-5) show ?thesis unfolding roundShape_def by blast
  qed
qed

lemma iteration_shape:
  assumes "iteration ok s = (res, s')"
  shows "\<exists>es. events s' = events s @ es \<and> roundShape ok (pushes s) es res s'"
proof (cases "needsPage s")
  case (Inl e)
  with assms show ?thesis by (simp add: iteration_def roundShape_def)
next
  case (Inr b)
  show ?thesis
  proof (cases b)
    case False
    with Inr assms have "pushChunk ok s = (res, s')" by (simp add: iteration_def)
    from pushChunk_shape[OF this] show ?thesis by blast
  next
    case True
    show ?thesis
    proof (cases "isOver s")
      case over: True
      with True Inr assms show ?thesis by (auto simp: iteration_def pushNull_def roundShape_def)
    next
      case notover: False
      obtain le s1 where l: "loadNextPage s = (le, s1)" by (cases "loadNextPage s")
      from loadNextPage_events[OF l] obtain e1 where e1: "events s1 = events s @ e1" by auto
      have q1: "pushedOf e1 = []"
        using loadNextPage_todo(1)[OF l _ notover] Inr True e1 by simp
      show ?thesis
      proof (cases le)
        case (Some err)
        with l True Inr notover assms e1 q1 show ?thesis
          by (auto simp: iteration_def roundShape_def)
      next
        case None
        obtain pe s2 where e: "emitPrefixes s1 = (pe, s2)" by (cases "emitPrefixes s1")
        from emitPrefixes_events[OF e] obtain e2 where e2: "events s2 = events s1 @ e2" by auto
        have q2: "pushedOf e2 = []" using emitPrefixes_pushed[OF e] e2 by simp
        have p2: "pushes s2 = pushes s"
          using emitPrefixes_pushes[OF e] loadNextPage_pushes[OF l] by simp
        show ?thesis
        proof (cases pe)
          case (Some err)
          with None l e True Inr notover assms have "res = Inl err" "s' = s2"
            by (auto simp: iteration_def)
          with e1 e2 q1 q2 show ?thesis by (auto simp: roundShape_def)
        next
          case pn: None
          with None l e True Inr notover assms have p: "pushChunk ok s2 = (res, s')"
            by (auto simp: iteration_def)
          from pushChunk_shape[OF p] p2 obtain e3 where
            e3: "events s' = events s2 @ e3" "roundShape ok (pushes s) e3 res s'" by metis
          have "pushedOf (e1 @ e2) = []" using q1 q2 by simp
          from roundShape_prepend[OF this e3(2)] e1 e2 e3(1) show ?thesis by auto
        qed
      qed
    qed
  qed
qed

lemma loop_refusalsStop:
  "refusalsStop ok (pushes s) (newEvents s (startRead_loop ok s))"
proof (induction ok s rule: startRead_loop.induct)
  case (1 ok s)
  obtain res s' where it: "iteration ok s = (res, s')" by (cases "iteration ok s")
  from iteration_shape[OF it] obtain es where
    es: "events s' = events s @ es" and sh: "roundShape ok (pushes s) es res s'" by auto
  show ?case
  proof (cases res)
    case (Inl e)
    with it have eq: "startRead_loop ok s = s'\<lparr>events := events s' @ [ErrorEv e]\<rparr>"
      by (simp add: startRead_loop.simps[of ok s])
    from sh Inl have "pushedOf es = []" by (auto simp: roundShape_def)
    then have "pushedOf (es @ [ErrorEv e]) = []" by simp
    from refusalsStop_quiet[OF this, of ok "pushes s" "[]"] show ?thesis
      by (simp add: eq es newEvents_def)
  next
    case (Inr b)
    show ?thesis
    proof (cases b)
      case False
      with Inr it have eq: "startRead_loop ok s = s'"
        by (simp add: startRead_loop.simps[of ok s])
      from sh Inr False consider "pushedOf es = []"
        | pre c where "es = pre @ [Push c, Stopped]" "pushedOf pre = []" "\<not> ok (pushes s)"
        by (auto simp: roundShape_def)
      then show ?thesis
      proof cases
        case 1
        from refusalsStop_quiet[OF this, of ok "pushes s" "[]"] show ?thesis
          by (simp add: eq es newEvents_def)
      next
        case 2
        then show ?thesis by (simp add: eq es newEvents_def refusalsStop_quiet)
      qed
    next
      case True
      with Inr it have eq: "startRead_loop ok s = startRead_loop ok s'"
        by (simp add: startRead_loop.simps[of ok s])
      from loop_extends[of ok s'] obtain fs where fs: "events (startRead_loop ok s') = events s' @ fs"
        by auto
      have IH: "refusalsStop ok (pushes s') fs"
        using "1.IH"[OF it[symmetric] Inr] True fs by (simp add: newEvents_def)
      have n: "newEvents s (startRead_loop ok s) = es @ fs"
        by (simp add: eq fs es newEvents_def)
      from sh Inr True consider "pushedOf es = []" "pushes s' = pushes s"
        | pre c where "es = pre @ [Push c]" "pushedOf pre = []" "ok (pushes s)" "pushes s' = pushes s + 1"
        by (auto simp: roundShape_def)
      then show ?thesis
      proof cases
        case 1
        with IH show ?thesis unfolding n by (simp add: refusalsStop_quiet)
      next
        case 2
        with IH show ?thesis unfolding n by (simp add: refusalsStop_quiet)
      qed
    qed
  qed
qed

lemma read_refusalsStop: "refusalsStop ok (pushes s) (newEvents s (read ok s))"
proof (cases "stopped s")
  case False
  then show ?thesis by (simp add: read_def newEvents_def)
next
  case True
  let ?s1 = "s\<lparr>stopped := False, events := events s @ [Restarted]\<rparr>"
  from loop_extends[of ok ?s1] obtain fs where fs: "events (startRead_loop ok ?s1) = events ?s1 @ fs"
    by auto
  from loop_refusalsStop[of ok ?s1] fs have "refusalsStop ok (pushes s) fs"
    by (simp add: newEvents_def)
  with True fs show ?thesis by (simp add: read_def startRead_def newEvents_def)
qed

text \<open>
  C4. When the push of the item k at the cursor is answered with \<^verbatim>\<open>false\<close>, the run of
  the loop ends there: the log gets that push and the \<^verbatim>\<open>stopped\<close> notification and
  nothing more (no fetch, no other push), the held response is kept and the cursor is
  at k + 1. The next pull restarts and, when the held response has an item at the
  cursor, pushes that item first; a consumer that keeps pulling receives the rest of the
  held response and then the following pages, nothing twice and nothing left out. In
  any pull of any stream every refused push is followed by the \<^verbatim>\<open>stopped\<close>
  notification alone, also when the round had fetched the page; and a pull that leaves
  the stream stopped has ended in this way.
\<close>

theorem refused_push_pauses_until_next_pull:
  assumes "lastResponse s = Some r" and "Contents r = Some xs"
    and "currentIndex s < length xs" and "xs ! currentIndex s = Some item"
    and "\<not> ok (pushes s)" and "\<not> stopped s"
    and "t = s\<lparr>currentIndex := currentIndex s + 1, pushes := pushes s + 1, stopped := True,
               events := events s @ [Push (CObj item), Stopped]\<rparr>"
  shows "startRead_loop ok s = t
       \<and> (\<forall>item'. nextItem t = Some item' \<longrightarrow>
            take 2 (newEvents t (read ok t)) = [Restarted, Push (CObj item')])
       \<and> pushedOf (events (drain ok t)) = pushedOf (events s) @ CObj item # todo t
       \<and> refusalsStop ok (pushes u) (newEvents u (read ok u))
       \<and> (pushedOf (newEvents u (snd (iteration ok u))) \<noteq> [] \<and> \<not> ok (pushes u) \<longrightarrow>
            fst (iteration ok u) = Inr False \<and> stopped (snd (iteration ok u)) \<and>
            startRead_loop ok u = snd (iteration ok u) \<and>
            drop (length (newEvents u (snd (iteration ok u))) - 2) (newEvents u (snd (iteration ok u)))
              = map Push (pushedOf (newEvents u (snd (iteration ok u)))) @ [Stopped])
       \<and> (stopped u \<and> stopped (read ok u) \<longrightarrow> pausedAt ok (read ok u))"
proof (intro conjI allI impI)
  have "iteration ok s = pushChunk ok s"
    using assms(1-3) by (simp add: iteration_def needsPage_def)
  also have "\<dots> = (Inr False, t)"
    using assms(1-5,7) by (simp add: pushChunk_def push_def Let_def)
  finally show "startRead_loop ok s = t" by (simp add: startRead_loop.simps[of ok s])
next
  fix item' assume n: "nextItem t = Some item'"
  let ?t1 = "t\<lparr>stopped := False, events := events t @ [Restarted]\<rparr>"
  have st: "stopped t" using assms(7) by simp
  have "nextItem ?t1 = nextItem t" by (simp add: nextItem_def split: option.splits)
  with n have "nextItem ?t1 = Some item'" by simp
  from resume_first_push[OF this, of ok] obtain es where
    "events (startRead_loop ok ?t1) = events t @ [Restarted, Push (CObj item')] @ es" by auto
  with st show "take 2 (newEvents t (read ok t)) = [Restarted, Push (CObj item')]"
    by (simp add: newEvents_def read_def startRead_def)
next
  have st: "stopped t" using assms(7) by simp
  have "pushedOf (events t) = pushedOf (events s) @ [CObj item]" using assms(7) by simp
  with drain_todo[OF st, of ok]
  show "pushedOf (events (drain ok t)) = pushedOf (events s) @ CObj item # todo t" by simp
next
  show "refusalsStop ok (pushes u) (newEvents u (read ok u))" by (rule read_refusalsStop)
next
  assume a: "pushedOf (newEvents u (snd (iteration ok u))) \<noteq> [] \<and> \<not> ok (pushes u)"
  obtain res u' where it: "iteration ok u = (res, u')" by (cases "iteration ok u")
  from iteration_shape[OF it] obtain es where
    es: "events u' = events u @ es" and sh: "roundShape ok (pushes u) es res u'" by auto
  have ne: "newEvents u u' = es" by (simp add: newEvents_def es)
  from sh a it ne obtain pre c where c: "es = pre @ [Push c, Stopped]" "pushedOf pre = []"
    "res = Inr False" "stopped u'"
    unfolding roundShape_def by auto
  from c(3) it show "fst (iteration ok u) = Inr False" by simp
  from c(4) it show "stopped (snd (iteration ok u))" by simp
  from c(3) it show "startRead_loop ok u = snd (iteration ok u)"
    by (simp add: startRead_loop.simps[of ok u])
  from c(1,2) it ne
  show "drop (length (newEvents u (snd (iteration ok u))) - 2) (newEvents u (snd (iteration ok u)))
          = map Push (pushedOf (newEvents u (snd (iteration ok u)))) @ [Stopped]"
    by simp
next
  assume a: "stopped u \<and> stopped (read ok u)"
  let ?u1 = "u\<lparr>stopped := False, events := events u @ [Restarted]\<rparr>"
  from a have r: "read ok u = startRead_loop ok ?u1" by (simp add: read_def startRead_def)
  with a have "stopped (startRead_loop ok ?u1)" by simp
  then have "pausedAt ok (startRead_loop ok ?u1)" by (intro loop_pausedAt) simp_all
  then show "pausedAt ok (read ok u)" by (simp add: r)
qed

text \<open>A running stream that holds the first page of the test suite, the cursor at \<open>i\<close>.\<close>

definition holdingFirstPage :: "nat \<Rightarrow> stream" where
  "holdingFirstPage i =
     (S3ListBucketStream (map Inr (tl testPages)) ''b'' ''p'' Map.empty)
       \<lparr>lastResponse := Some (hd testPages), currentIndex := i, stopped := False\<rparr>"

theorem refused_push_pauses_until_next_pull_witness:
  "startRead_loop (\<lambda>k. k \<noteq> 0) (holdingFirstPage 1)
     = (holdingFirstPage 1)\<lparr>currentIndex := 2, pushes := 1, stopped := True,
          events := [Push (CObj (testObject ''1.jpg'' 100)), Stopped]\<rparr>
   \<and> take 2 (newEvents
        ((holdingFirstPage 0)\<lparr>currentIndex := 1, pushes := 1, stopped := True,
            events := [Push (CObj (testObject ''0.jpg'' 0)), Stopped]\<rparr>)
        (read (\<lambda>k. k \<noteq> 0)
          ((holdingFirstPage 0)\<lparr>currentIndex := 1, pushes := 1, stopped := True,
              events := [Push (CObj (testObject ''0.jpg'' 0)), Stopped]\<rparr>)))
     = [Restarted, Push (CObj (testObject ''1.jpg'' 100))]"
proof -
  let ?ok = "\<lambda>k::nat. k \<noteq> 0"
  let ?xs = "[Some (testObject ''0.jpg'' 0), Some (testObject ''1.jpg'' 100)]"
  let ?t1 = "(holdingFirstPage 1)\<lparr>currentIndex := 2, pushes := 1, stopped := True,
          events := [Push (CObj (testObject ''1.jpg'' 100)), Stopped]\<rparr>"
  let ?t0 = "(holdingFirstPage 0)\<lparr>currentIndex := 1, pushes := 1, stopped := True,
          events := [Push (CObj (testObject ''0.jpg'' 0)), Stopped]\<rparr>"
  have c: "Contents (hd testPages) = Some ?xs" by (simp add: testPages_def)
  have h1: "lastResponse (holdingFirstPage 1) = Some (hd testPages)"
    "currentIndex (holdingFirstPage 1) < length ?xs"
    "?xs ! currentIndex (holdingFirstPage 1) = Some (testObject ''1.jpg'' 100)"
    "\<not> ?ok (pushes (holdingFirstPage 1))" "\<not> stopped (holdingFirstPage 1)"
    "?t1 = (holdingFirstPage 1)\<lparr>currentIndex := currentIndex (holdingFirstPage 1) + 1,
        pushes := pushes (holdingFirstPage 1) + 1, stopped := True,
        events := events (holdingFirstPage 1) @ [Push (CObj (testObject ''1.jpg'' 100)), Stopped]\<rparr>"
    by (simp_all add: holdingFirstPage_def S3ListBucketStream_def)
  have h0: "lastResponse (holdingFirstPage 0) = Some (hd testPages)"
    "currentIndex (holdingFirstPage 0) < length ?xs"
    "?xs ! currentIndex (holdingFirstPage 0) = Some (testObject ''0.jpg'' 0)"
    "\<not> ?ok (pushes (holdingFirstPage 0))" "\<not> stopped (holdingFirstPage 0)"
    "?t0 = (holdingFirstPage 0)\<lparr>currentIndex := currentIndex (holdingFirstPage 0) + 1,
        pushes := pushes (holdingFirstPage 0) + 1, stopped := True,
        events := events (holdingFirstPage 0) @ [Push (CObj (testObject ''0.jpg'' 0)), Stopped]\<rparr>"
    by (simp_all add: holdingFirstPage_def S3ListBucketStream_def)
  have n: "nextItem ?t0 = Some (testObject ''1.jpg'' 100)"
    by (simp add: nextItem_def holdingFirstPage_def testPages_def)
  note A = refused_push_pauses_until_next_pull
    [where s = "holdingFirstPage 1" and ok = ?ok and t = ?t1 and u = "holdingFirstPage 1",
     OF h1(1) c h1(2-6), THEN conjunct1]
  note B = refused_push_pauses_until_next_pull
    [where s = "holdingFirstPage 0" and ok = ?ok and t = ?t0 and u = "holdingFirstPage 0",
     OF h0(1) c h0(2-6), THEN conjunct2, THEN conjunct1]
  from B n have "take 2 (newEvents ?t0 (read ?ok ?t0)) = [Restarted, Push (CObj (testObject ''1.jpg'' 100))]"
    by blast
  with A show ?thesis by blast
qed

section \<open>Common prefixes\<close>

text \<open>The \<^verbatim>\<open>prefix\<close> notifications in a list of events.\<close>

fun prefixesOf :: "event list \<Rightarrow> string option list" where
  "prefixesOf [] = []"
| "prefixesOf (PrefixEv p # es) = p # prefixesOf es"
| "prefixesOf (e # es) = prefixesOf es"

lemma prefixesOf_append [simp]: "prefixesOf (es @ fs) = prefixesOf es @ prefixesOf fs"
  by (induction es rule: prefixesOf.induct) auto






section \<open>A response without \<open>Contents\<close>\<close>

lemma loadNextPage_success:
  "s3 s = Inr r # rest \<Longrightarrow>
     loadNextPage s =
       (None, s\<lparr>events := events s @ [Request (listObjectsV2args s ++ currentParams s),
                                       Page (listObjectsV2args s ++ currentParams s) (Some r)],
                s3 := rest, lastResponse := Some r, currentIndex := 0\<rparr>)"
  by (simp add: loadNextPage_def Let_def)

text \<open>
  C10, as the code has it. When a fetch succeeds with a response that has no
  \<open>Contents\<close>, the same round of the loop throws: the read of the entry at the cursor,
  right after the fetch and the \<^verbatim>\<open>prefix\<close> notifications, is a read of a property of
  \<^verbatim>\<open>undefined\<close>. The error is caught and emitted as the one closing notification, it is
  the last event, nothing of that page is pushed, and a later pull does nothing.
\<close>

theorem absent_contents_fails_at_entry_read:
  assumes "needsPage s = Inr True" and "\<not> isOver s" and "\<not> stopped s"
    and "s3 s = Inr r # rest" and "Contents r = None" and "prefixesOk r"
  shows "fst (iteration ok s) = Inl (TypeError P_element)
       \<and> filter terminal (newEvents s (startRead_loop ok s)) = [ErrorEv (TypeError P_element)]
       \<and> last (events (startRead_loop ok s)) = ErrorEv (TypeError P_element)
       \<and> pushedOf (newEvents s (startRead_loop ok s)) = []
       \<and> read ok' (startRead_loop ok s) = startRead_loop ok s"
proof -
  let ?p = "listObjectsV2args s ++ currentParams s"
  let ?s1 = "s\<lparr>events := events s @ [Request ?p, Page ?p (Some r)],
                s3 := rest, lastResponse := Some r, currentIndex := 0\<rparr>"
  have l: "loadNextPage s = (None, ?s1)" using assms(4) by (rule loadNextPage_success)
  obtain pe s2 where e: "emitPrefixes ?s1 = (pe, s2)" by (cases "emitPrefixes ?s1")
  have pe: "pe = None" using emitPrefixes_result[OF e, of r] assms(6) by simp
  note K = emitPrefixes_keeps[OF e] emitPrefixes_stopped[OF e]
  from emitPrefixes_events[OF e] obtain es where es: "events s2 = events ?s1 @ es" by auto
  have tes: "filter terminal es = []"
    using emitPrefixes_terminal[OF e] es by simp
  have pes: "pushedOf es = []"
    using emitPrefixes_pushed[OF e] es by simp
  have p: "pushChunk ok s2 = (Inl (TypeError P_element), s2\<lparr>currentIndex := currentIndex s2 + 1\<rparr>)"
    using K assms(5) by (simp add: pushChunk_def Let_def)
  have it: "iteration ok s = (Inl (TypeError P_element), s2\<lparr>currentIndex := currentIndex s2 + 1\<rparr>)"
    using assms(1,2) l e pe p by (simp add: iteration_def)
  have lp: "startRead_loop ok s =
      s2\<lparr>currentIndex := currentIndex s2 + 1, events := events s2 @ [ErrorEv (TypeError P_element)]\<rparr>"
    using it by (simp add: startRead_loop.simps[of ok s])
  have ne: "newEvents s (startRead_loop ok s) =
      [Request ?p, Page ?p (Some r)] @ es @ [ErrorEv (TypeError P_element)]"
    unfolding lp by (simp add: newEvents_def es)
  have st: "\<not> stopped (startRead_loop ok s)"
    unfolding lp using K assms(3) by simp
  show ?thesis
    unfolding ne using it tes pes st by (simp add: read_def) (simp add: lp)
qed

text \<open>A page without \<open>Contents\<close>, and a new stream whose provider returns it.\<close>

definition absentPage :: response where
  "absentPage =
     \<lparr>Contents = None, IsTruncated = False, NextContinuationToken = None, CommonPrefixes = None\<rparr>"

definition absentStream :: stream where
  "absentStream = S3ListBucketStream [Inr absentPage] ''b'' '''' Map.empty"

theorem absent_contents_fails_at_entry_read_witness:
  "fst (iteration (\<lambda>k. True) (absentStream\<lparr>stopped := False\<rparr>)) = Inl (TypeError P_element)
   \<and> filter terminal (newEvents (absentStream\<lparr>stopped := False\<rparr>)
        (startRead_loop (\<lambda>k. True) (absentStream\<lparr>stopped := False\<rparr>)))
       = [ErrorEv (TypeError P_element)]"
proof -
  let ?s = "absentStream\<lparr>stopped := False\<rparr>"
  have h: "needsPage ?s = Inr True" "\<not> isOver ?s" "\<not> stopped ?s"
    "s3 ?s = Inr absentPage # []" "Contents absentPage = None" "prefixesOk absentPage"
    by (simp_all add: absentStream_def absentPage_def needsPage_def isOver_def prefixesOk_def)
  from absent_contents_fails_at_entry_read [OF h, of "\<lambda>k. True"] show ?thesis by blast
qed

text \<open>
  The claim as it is written names another place: the round would finish and the next
  one would throw on reading \<^verbatim>\<open>Contents.length\<close>. On this stream the round that fetches
  does not finish, and no error about \<^verbatim>\<open>length\<close> is ever emitted.
\<close>

theorem absent_contents_counterexample:
  "fst (iteration (\<lambda>k. True) (absentStream\<lparr>stopped := False, events := [Restarted]\<rparr>)) \<noteq> Inr True
   \<and> fst (iteration (\<lambda>k. True) (absentStream\<lparr>stopped := False, events := [Restarted]\<rparr>))
       = Inl (TypeError P_element)
   \<and> filter terminal (events (read (\<lambda>k. True) absentStream)) = [ErrorEv (TypeError P_element)]
   \<and> ErrorEv (TypeError P_length) \<notin> set (events (read (\<lambda>k. True) absentStream))"
  by (simp add: absentStream_def absentPage_def S3ListBucketStream_def read_def startRead_def
      startRead_loop.simps iteration_def needsPage_def isOver_def loadNextPage_def pushChunk_def
      emitPrefixes_def Let_def)

section \<open>src/unnamed/part_000: the variant with the \<^verbatim>\<open>fullMetadata\<close> option\<close>

text \<open>
  This variant of the class takes stream options before the extra request arguments,
  keeps the \<^verbatim>\<open>fullMetadata\<close> option in a field, has no \<^verbatim>\<open>prefix\<close> notifications and no
  guard against nullish entries. Its \<^verbatim>\<open>_loadNextPage\<close> and \<^verbatim>\<open>_read\<close> are those of
  \<^verbatim>\<open>src/index.ts\<close>, character for character.
\<close>

record stream_fm = stream +
  fullMetadata :: "jsval option"

definition defaultOptions :: dict where
  "defaultOptions = [''fullMetadata'' \<mapsto> Bool False]"

text \<open>Lines 45 to 50: the options passed on to the \<^verbatim>\<open>Readable\<close> constructor.\<close>

definition mergedOptions :: "dict \<Rightarrow> dict" where
  "mergedOptions options =
     (let merged = defaultOptions ++ options
      in if truthy (merged ''fullMetadata'') then merged(''objectMode'' \<mapsto> Bool True) else merged)"

text \<open>The constructor (lines 32 to 69).\<close>

definition S3ListBucketStream_fm ::
  "(string + response) list \<Rightarrow> string \<Rightarrow> string \<Rightarrow> dict \<Rightarrow> dict \<Rightarrow> stream_fm" where
  "S3ListBucketStream_fm client b pre options args =
     \<lparr> s3 = client,
       readableOptions = mergedOptions options,
       bucket = b,
       bucketPrefix = pre,
       listObjectsV2args = defaultListObjectsV2Options ++ args,
       lastResponse = None,
       currentIndex = 0,
       stopped = True,
       events = [],
       pushes = 0,
       fullMetadata = mergedOptions options ''fullMetadata'' \<rparr>"

text \<open>
  Line 114: the chunk for the entry read at the cursor. Reading \<^verbatim>\<open>Key\<close> of a nullish
  entry throws; an object without a key gives a nullish chunk.
\<close>

definition chunkFor :: "jsval option \<Rightarrow> s3object option \<Rightarrow> error + chunk" where
  "chunkFor full metadata =
     (if truthy full
      then Inr (case metadata of None \<Rightarrow> CNullish | Some m \<Rightarrow> CObj m)
      else (case metadata of
              None \<Rightarrow> Inl (TypeError P_Key)
            | Some m \<Rightarrow> Inr (case Key m of None \<Rightarrow> CNullish | Some k \<Rightarrow> CStr k)))"

text \<open>Lines 113 to 120.\<close>

definition pushChunk_fm :: "(nat \<Rightarrow> bool) \<Rightarrow> stream_fm \<Rightarrow> (error + bool) \<times> stream_fm" where
  "pushChunk_fm ok s =
     (case lastResponse s of
        None \<Rightarrow> (Inl (TypeError P_Contents), s)
      | Some r \<Rightarrow>
          (let i = currentIndex s; s1 = s\<lparr>currentIndex := i + 1\<rparr>
           in case Contents r of
                None \<Rightarrow> (Inl (TypeError P_element), s1)
              | Some xs \<Rightarrow>
                  (case chunkFor (fullMetadata s) (if i < length xs then xs ! i else None) of
                     Inl err \<Rightarrow> (Inl err, s1)
                   | Inr chunkToPush \<Rightarrow>
                       (case push ok chunkToPush s1 of
                          (True, s2) \<Rightarrow> (Inr True, s2)
                        | (False, s2) \<Rightarrow>
                            (Inr False, s2\<lparr>stopped := True, events := events s2 @ [Stopped]\<rparr>)))))"

text \<open>One round of the loop (lines 101 to 121).\<close>

definition iteration_fm :: "(nat \<Rightarrow> bool) \<Rightarrow> stream_fm \<Rightarrow> (error + bool) \<times> stream_fm" where
  "iteration_fm ok s =
     (case needsPage s of
        Inl err \<Rightarrow> (Inl err, s)
      | Inr False \<Rightarrow> pushChunk_fm ok s
      | Inr True \<Rightarrow>
          (if isOver s then (Inr False, snd (pushNull ok s))
           else case loadNextPage s of
                  (Some err, s1) \<Rightarrow> (Inl err, s1)
                | (None, s1) \<Rightarrow> pushChunk_fm ok s1))"

lemma pushChunk_fm_continue:
  "pushChunk_fm ok s = (Inr True, s') \<Longrightarrow>
     s3 s' = s3 s \<and> lastResponse s' = lastResponse s \<and> currentIndex s' = currentIndex s + 1 \<and>
     lastResponse s \<noteq> None"
  by (auto simp: pushChunk_fm_def push_def Let_def split: option.splits sum.splits bool.splits)

lemma iteration_fm_progress:
  assumes "iteration_fm ok s = (Inr True, s')"
  shows "(s', s) \<in> progress"
proof (cases "needsPage s")
  case (Inl e)
  with assms show ?thesis by (simp add: iteration_fm_def)
next
  case (Inr b)
  show ?thesis
  proof (cases b)
    case False
    with Inr assms have p: "pushChunk_fm ok s = (Inr True, s')" by (simp add: iteration_fm_def)
    from Inr False obtain r xs where "lastResponse s = Some r" "Contents r = Some xs" "currentIndex s < length xs"
      by (auto simp: needsPage_def split: option.splits)
    with pushChunk_fm_continue[OF p] show ?thesis
      by (auto simp: progress_def left_def)
  next
    case True
    with Inr assms obtain s1 where l: "loadNextPage s = (None, s1)"
      and p: "pushChunk_fm ok s1 = (Inr True, s')"
      by (auto simp: iteration_fm_def split: if_splits prod.splits option.splits)
    from pushChunk_fm_continue[OF p] loadNextPage_resolved[OF l]
    show ?thesis by (auto simp: progress_def left_def)
  qed
qed

text \<open>\<^verbatim>\<open>_startRead\<close> (lines 97 to 125) and \<^verbatim>\<open>_read\<close> (lines 127 to 132).\<close>

function startRead_loop_fm :: "(nat \<Rightarrow> bool) \<Rightarrow> stream_fm \<Rightarrow> stream_fm" where
  "startRead_loop_fm ok s =
     (case iteration_fm ok s of
        (Inr True, s') \<Rightarrow> startRead_loop_fm ok s'
      | (Inr False, s') \<Rightarrow> s'
      | (Inl err, s') \<Rightarrow> s'\<lparr>events := events s' @ [ErrorEv err]\<rparr>)"
  by pat_completeness auto
termination
proof (relation "inv_image progress snd")
  show "wf (inv_image progress snd)"
    by (intro wf_inv_image wf_progress)
qed (auto intro: iteration_fm_progress [OF sym])

declare startRead_loop_fm.simps [simp del]

definition startRead_fm :: "(nat \<Rightarrow> bool) \<Rightarrow> stream_fm \<Rightarrow> stream_fm" where
  "startRead_fm ok s = startRead_loop_fm ok (s\<lparr>stopped := False, events := events s @ [Restarted]\<rparr>)"

definition read_fm :: "(nat \<Rightarrow> bool) \<Rightarrow> stream_fm \<Rightarrow> stream_fm" where
  "read_fm ok s = (if stopped s then startRead_fm ok s else s)"

section \<open>Object mode\<close>

text \<open>
  C9. When the \<^verbatim>\<open>fullMetadata\<close> option is truthy, the options given to the host stream
  have \<^verbatim>\<open>objectMode\<close> true, whatever the caller gave for it; when it is not, the caller's
  \<^verbatim>\<open>objectMode\<close> (present or absent) is handed on as it is.
\<close>

theorem fullMetadata_forces_objectMode:
  "(truthy (options ''fullMetadata'') \<longrightarrow>
      readableOptions (S3ListBucketStream_fm client b pre options args) ''objectMode'' = Some (Bool True))
   \<and> (\<not> truthy (options ''fullMetadata'') \<longrightarrow>
      readableOptions (S3ListBucketStream_fm client b pre options args) ''objectMode''
        = options ''objectMode'')"
  by (cases "options ''fullMetadata''")
     (simp_all add: S3ListBucketStream_fm_def mergedOptions_def defaultOptions_def Let_def map_add_def
        split: option.splits)

theorem fullMetadata_forces_objectMode_witness:
  "truthy ([''fullMetadata'' \<mapsto> Bool True, ''objectMode'' \<mapsto> Bool False] ''fullMetadata'')
   \<and> readableOptions (S3ListBucketStream_fm [] ''b'' '''' [''fullMetadata'' \<mapsto> Bool True, ''objectMode'' \<mapsto> Bool False] Map.empty)
        ''objectMode'' = Some (Bool True)
   \<and> \<not> truthy ([''objectMode'' \<mapsto> Bool False] ''fullMetadata'')
   \<and> readableOptions (S3ListBucketStream_fm [] ''b'' '''' [''objectMode'' \<mapsto> Bool False] Map.empty)
        ''objectMode'' = Some (Bool False)"
  using fullMetadata_forces_objectMode
      [of "[''fullMetadata'' \<mapsto> Bool True, ''objectMode'' \<mapsto> Bool False]" "[]" "''b''" "''''" Map.empty]
    fullMetadata_forces_objectMode [of "[''objectMode'' \<mapsto> Bool False]" "[]" "''b''" "''''" Map.empty]
  by simp

section \<open>Keys or full records\<close>

text \<open>
  What the loop of this variant reads from a page it has just fetched: its entries, and
  for an empty page the one \<^verbatim>\<open>undefined\<close> at index 0.
\<close>

definition entriesRead :: "s3object option list \<Rightarrow> s3object option list" where
  "entriesRead xs = (if xs = [] then [None] else xs)"

text \<open>The chunks that a list of entries gives, up to the first entry that throws.\<close>

fun emitUntil :: "jsval option \<Rightarrow> s3object option list \<Rightarrow> chunk list \<times> bool" where
  "emitUntil full [] = ([], True)"
| "emitUntil full (e # es) =
     (case chunkFor full e of
        Inl err \<Rightarrow> ([], False)
      | Inr c \<Rightarrow> (c # fst (emitUntil full es), snd (emitUntil full es)))"

text \<open>What a provider script delivers in this variant, and what is still to come from a state.\<close>

fun expected_fm :: "jsval option \<Rightarrow> (string + response) list \<Rightarrow> chunk list" where
  "expected_fm full [] = []"
| "expected_fm full (Inl err # rest) = []"
| "expected_fm full (Inr r # rest) =
     (case Contents r of
        None \<Rightarrow> []
      | Some xs \<Rightarrow>
          fst (emitUntil full (entriesRead xs)) @
          (if snd (emitUntil full (entriesRead xs)) \<and> IsTruncated r
           then expected_fm full rest else []))"

definition todo_fm :: "stream_fm \<Rightarrow> chunk list" where
  "todo_fm s =
     (case lastResponse s of
        None \<Rightarrow> expected_fm (fullMetadata s) (s3 s)
      | Some r \<Rightarrow>
          (case Contents r of
             None \<Rightarrow> []
           | Some xs \<Rightarrow>
               fst (emitUntil (fullMetadata s) (drop (currentIndex s) xs)) @
               (if snd (emitUntil (fullMetadata s) (drop (currentIndex s) xs)) \<and> IsTruncated r
                then expected_fm (fullMetadata s) (s3 s) else [])))"

lemma todo_fm_cong:
  "lastResponse a = lastResponse b \<Longrightarrow> s3 a = s3 b \<Longrightarrow> currentIndex a = currentIndex b \<Longrightarrow>
     fullMetadata a = fullMetadata b \<Longrightarrow> todo_fm a = todo_fm b"
  by (simp add: todo_fm_def split: option.splits)

lemma pushChunk_fm_stopped:
  "pushChunk_fm ok s = (res, s') \<Longrightarrow> res \<noteq> Inr False \<Longrightarrow> stopped s' = stopped s"
  by (auto simp: pushChunk_fm_def push_def Let_def split: option.splits sum.splits bool.splits)

lemma pushChunk_fm_pause:
  "pushChunk_fm ok s = (Inr False, s') \<Longrightarrow> stopped s'"
  by (auto simp: pushChunk_fm_def push_def Let_def split: option.splits sum.splits bool.splits)

lemma pushChunk_fm_mode:
  "pushChunk_fm ok s = (res, s') \<Longrightarrow> fullMetadata s' = fullMetadata s"
  by (auto simp: pushChunk_fm_def push_def Let_def split: option.splits sum.splits bool.splits)

lemma loadNextPage_mode:
  "loadNextPage s = (r, s') \<Longrightarrow> fullMetadata s' = fullMetadata s"
  by (cases "s3 s" rule: listObjectsV2.cases) (auto simp: loadNextPage_def Let_def)

text \<open>
  One entry read at the cursor of a held response: \<open>ys\<close> is what was to be read from the
  page, the entry first.
\<close>

lemma pushChunk_fm_entry:
  assumes "pushChunk_fm ok s = (res, s')"
    and "lastResponse s = Some r" "Contents r = Some xs"
    and "ys = (if currentIndex s < length xs then xs ! currentIndex s else None) # drop (currentIndex s + 1) xs"
  shows "case res of
           Inl e \<Rightarrow> pushedOf (events s') = pushedOf (events s) \<and> emitUntil (fullMetadata s) ys = ([], False)
         | Inr b \<Rightarrow>
             pushedOf (events s') @ todo_fm s'
               = pushedOf (events s) @ fst (emitUntil (fullMetadata s) ys) @
                 (if snd (emitUntil (fullMetadata s) ys) \<and> IsTruncated r
                  then expected_fm (fullMetadata s) (s3 s) else [])"
proof -
  define e where "e = (if currentIndex s < length xs then xs ! currentIndex s else None)"
  have ys: "ys = e # drop (currentIndex s + 1) xs" using assms(4) by (simp add: e_def)
  let ?s1 = "s\<lparr>currentIndex := currentIndex s + 1\<rparr>"
  show ?thesis
  proof (cases "chunkFor (fullMetadata s) e")
    case (Inl err)
    with assms(1-3) have "res = Inl err" "s' = ?s1"
      by (simp_all add: pushChunk_fm_def Let_def e_def)
    with Inl show ?thesis by (simp add: ys)
  next
    case (Inr c)
    with assms(1-3) have r: "(res, s') =
        (case push ok c ?s1 of
           (True, s2) \<Rightarrow> (Inr True, s2)
         | (False, s2) \<Rightarrow> (Inr False, s2\<lparr>stopped := True, events := events s2 @ [Stopped]\<rparr>))"
      by (simp add: pushChunk_fm_def Let_def e_def)
    show ?thesis
    proof (cases "ok (pushes s)")
      case True
      with r have "res = Inr True"
        "s' = s\<lparr>currentIndex := currentIndex s + 1, events := events s @ [Push c], pushes := pushes s + 1\<rparr>"
        by (simp_all add: push_def)
      with Inr assms(2,3) show ?thesis by (simp add: ys todo_fm_def)
    next
      case False
      with r have "res = Inr False"
        "s' = s\<lparr>currentIndex := currentIndex s + 1, events := events s @ [Push c], pushes := pushes s + 1,
               stopped := True, events := events s @ [Push c, Stopped]\<rparr>"
        by (simp_all add: push_def)
      with Inr assms(2,3) show ?thesis by (simp add: ys todo_fm_def)
    qed
  qed
qed

lemma iteration_fm_stopped:
  assumes "iteration_fm ok s = (res, s')" "res \<noteq> Inr False"
  shows "stopped s' = stopped s"
  using assms
  by (auto simp: iteration_fm_def split: sum.splits bool.splits if_splits prod.splits option.splits
      dest!: pushChunk_fm_stopped loadNextPage_stopped)

lemma iteration_fm_mode:
  assumes "iteration_fm ok s = (res, s')"
  shows "fullMetadata s' = fullMetadata s"
  using assms
  by (auto simp: iteration_fm_def pushNull_def split: sum.splits bool.splits if_splits prod.splits option.splits
      dest!: pushChunk_fm_mode loadNextPage_mode)

lemma iteration_fm_todo:
  assumes "iteration_fm ok s = (res, s')" "\<not> stopped s"
  shows "if res = Inr True \<or> (res = Inr False \<and> stopped s')
         then pushedOf (events s') @ todo_fm s' = pushedOf (events s) @ todo_fm s
         else pushedOf (events s') = pushedOf (events s) \<and> todo_fm s = []"
proof (cases "needsPage s")
  case (Inl e)
  with assms show ?thesis
    by (auto simp: iteration_fm_def needsPage_def todo_fm_def split: option.splits)
next
  case (Inr b)
  show ?thesis
  proof (cases b)
    case False
    with Inr assms have p: "pushChunk_fm ok s = (res, s')" by (simp add: iteration_fm_def)
    from Inr False obtain r xs where h: "lastResponse s = Some r" "Contents r = Some xs"
      "currentIndex s < length xs"
      by (auto simp: needsPage_def split: option.splits)
    let ?ys = "(if currentIndex s < length xs then xs ! currentIndex s else None) # drop (currentIndex s + 1) xs"
    have d: "drop (currentIndex s) xs = ?ys"
      using h(3) by (simp add: Cons_nth_drop_Suc)
    have t: "todo_fm s = fst (emitUntil (fullMetadata s) ?ys) @
        (if snd (emitUntil (fullMetadata s) ?ys) \<and> IsTruncated r
         then expected_fm (fullMetadata s) (s3 s) else [])"
      unfolding d[symmetric] using h by (simp add: todo_fm_def)
    from pushChunk_fm_entry[OF p h(1,2) refl] pushChunk_fm_stopped[OF p] pushChunk_fm_pause[of ok s s'] p assms(2)
    show ?thesis unfolding t by (cases res) auto
  next
    case True
    show ?thesis
    proof (cases "isOver s")
      case over: True
      with True Inr assms show ?thesis
        by (auto simp: iteration_fm_def pushNull_def todo_fm_def needsPage_def isOver_def split: option.splits)
    next
      case notover: False
      have ts: "todo_fm s = expected_fm (fullMetadata s) (s3 s)"
        using True Inr notover by (auto simp: todo_fm_def needsPage_def isOver_def split: option.splits)
      show ?thesis
      proof (cases "s3 s")
        case Nil
        with True Inr notover assms ts show ?thesis
          by (auto simp: iteration_fm_def loadNextPage_def pushChunk_fm_def Let_def)
      next
        case (Cons a rest)
        show ?thesis
        proof (cases a)
          case (Inl cause)
          with Cons True Inr notover assms ts show ?thesis
            by (auto simp: iteration_fm_def loadNextPage_def Let_def)
        next
          case (Inr r)
          let ?p = "listObjectsV2args s ++ currentParams s"
          let ?s1 = "s\<lparr>events := events s @ [Request ?p, Page ?p (Some r)],
                s3 := rest, lastResponse := Some r, currentIndex := 0\<rparr>"
          have l: "loadNextPage s = (None, ?s1)"
            using Cons Inr by (simp add: loadNextPage_success)
          from l True \<open>needsPage s = Inr b\<close> notover assms(1)
          have p: "pushChunk_fm ok ?s1 = (res, s')" by (simp add: iteration_fm_def)
          show ?thesis
          proof (cases "Contents r")
            case None
            with p ts Cons Inr show ?thesis by (auto simp: pushChunk_fm_def Let_def)
          next
            case (Some xs)
            let ?ys = "(if currentIndex ?s1 < length xs then xs ! currentIndex ?s1 else None)
                # drop (currentIndex ?s1 + 1) xs"
            have e: "entriesRead xs = ?ys"
              by (cases xs) (simp_all add: entriesRead_def)
            have t: "todo_fm s = fst (emitUntil (fullMetadata s) ?ys) @
                (if snd (emitUntil (fullMetadata s) ?ys) \<and> IsTruncated r
                 then expected_fm (fullMetadata s) rest else [])"
              unfolding ts Cons Inr e[symmetric] using Some by simp
            from pushChunk_fm_entry[OF p _ Some refl] pushChunk_fm_stopped[OF p]
              pushChunk_fm_pause[of ok ?s1 s'] p assms(2)
            show ?thesis unfolding t by (cases res) auto
          qed
        qed
      qed
    qed
  qed
qed

lemma loop_fm_todo:
  "\<not> stopped s \<Longrightarrow>
     pushedOf (events (startRead_loop_fm ok s)) @
       (if stopped (startRead_loop_fm ok s) then todo_fm (startRead_loop_fm ok s) else [])
       = pushedOf (events s) @ todo_fm s"
proof (induction ok s rule: startRead_loop_fm.induct)
  case (1 ok s)
  obtain res s' where it: "iteration_fm ok s = (res, s')" by (cases "iteration_fm ok s")
  note T = iteration_fm_todo[OF it "1.prems"]
  show ?case
  proof (cases res)
    case (Inl e)
    with it T iteration_fm_stopped[OF it] "1.prems" show ?thesis
      by (simp add: startRead_loop_fm.simps[of ok s])
  next
    case (Inr b)
    show ?thesis
    proof (cases b)
      case True
      with Inr it have eq: "startRead_loop_fm ok s = startRead_loop_fm ok s'"
        by (simp add: startRead_loop_fm.simps[of ok s])
      from True Inr it iteration_fm_stopped[OF it] 1 have ns: "\<not> stopped s'" by simp
      have "pushedOf (events (startRead_loop_fm ok s')) @
              (if stopped (startRead_loop_fm ok s') then todo_fm (startRead_loop_fm ok s') else [])
            = pushedOf (events s') @ todo_fm s'"
        using "1.IH"[OF it[symmetric] Inr] True ns by simp
      with Inr True T show ?thesis by (simp add: eq split: if_splits)
    next
      case False
      with Inr it have eq: "startRead_loop_fm ok s = s'"
        by (simp add: startRead_loop_fm.simps[of ok s])
      with T Inr False show ?thesis by (auto split: if_splits)
    qed
  qed
qed

text \<open>What has been pushed and what is still to come, together, do not change over a pull.\<close>

definition outlook_fm :: "stream_fm \<Rightarrow> chunk list" where
  "outlook_fm t = pushedOf (events t) @ (if stopped t then todo_fm t else [])"

lemma read_fm_outlook: "outlook_fm (read_fm ok s) = outlook_fm s"
proof (cases "stopped s")
  case False
  then show ?thesis by (simp add: read_fm_def)
next
  case True
  let ?s1 = "s\<lparr>stopped := False, events := events s @ [Restarted]\<rparr>"
  have "todo_fm ?s1 = todo_fm s" by (intro todo_fm_cong) simp_all
  with loop_fm_todo[of ?s1 ok] True show ?thesis
    by (simp add: outlook_fm_def read_fm_def startRead_fm_def split: if_splits)
qed

lemma reads_fm_outlook: "outlook_fm ((read_fm ok ^^ n) s) = outlook_fm s"
  by (induction n) (simp_all add: read_fm_outlook)

text \<open>The value that stands for a listed object in the output: its key, or the whole record.\<close>

definition keyOf :: "s3object \<Rightarrow> chunk" where
  "keyOf m = (case Key m of None \<Rightarrow> CNullish | Some k \<Rightarrow> CStr k)"

definition emitted :: "jsval option \<Rightarrow> s3object \<Rightarrow> chunk" where
  "emitted full m = (if truthy full then CObj m else keyOf m)"

definition itemsAs :: "jsval option \<Rightarrow> response \<Rightarrow> chunk list" where
  "itemsAs full r = (case Contents r of None \<Rightarrow> [] | Some xs \<Rightarrow> map (emitted full) (present xs))"

text \<open>A page that lists at least one object and has no nullish entry.\<close>

definition listsObjects :: "response \<Rightarrow> bool" where
  "listsObjects r =
     (case Contents r of None \<Rightarrow> False | Some xs \<Rightarrow> xs \<noteq> [] \<and> list_all (\<lambda>e. e \<noteq> None) xs)"

lemma chunkFor_object: "chunkFor full (Some m) = Inr (emitted full m)"
  by (simp add: chunkFor_def emitted_def keyOf_def)

lemma emitUntil_objects:
  "list_all (\<lambda>e. e \<noteq> None) xs \<Longrightarrow> emitUntil full xs = (map (emitted full) (present xs), True)"
  by (induction xs rule: present.induct) (simp_all add: chunkFor_object)

lemma expected_fm_page:
  "listsObjects r \<Longrightarrow>
     expected_fm full (Inr r # rest) = itemsAs full r @ (if IsTruncated r then expected_fm full rest else [])"
  by (auto simp: listsObjects_def itemsAs_def entriesRead_def emitUntil_objects split: option.splits)

lemma expected_fm_pages:
  assumes "pages \<noteq> []"
    and "\<forall>p \<in> set (butlast pages). IsTruncated p"
    and "\<not> IsTruncated (last pages)"
    and "\<forall>p \<in> set pages. listsObjects p"
  shows "expected_fm full (map Inr pages @ later) = concat (map (itemsAs full) pages)"
  using assms
proof (induction pages)
  case Nil
  then show ?case by simp
next
  case (Cons p ps)
  then show ?case by (cases "ps = []") (simp_all add: expected_fm_page del: expected_fm.simps)
qed

lemma mode_of_option:
  "truthy (fullMetadata (S3ListBucketStream_fm client b pre options args)) = truthy (options ''fullMetadata'')"
  by (cases "options ''fullMetadata''")
     (simp_all add: S3ListBucketStream_fm_def mergedOptions_def defaultOptions_def Let_def map_add_def)

lemma emitted_truthy: "truthy full = truthy full' \<Longrightarrow> emitted full = emitted full'"
  by (simp add: emitted_def fun_eq_iff)

lemma expected_fm_truthy:
  "truthy full = truthy full' \<Longrightarrow> expected_fm full script = expected_fm full' script"
proof -
  assume t: "truthy full = truthy full'"
  then have c: "chunkFor full = chunkFor full'" by (simp add: chunkFor_def fun_eq_iff)
  have e: "emitUntil full xs = emitUntil full' xs" for xs
    by (induction xs) (simp_all add: c split: sum.splits)
  show ?thesis
  proof (induction script)
    case Nil
    then show ?case by simp
  next
    case (Cons a script)
    then show ?case by (cases a) (simp_all add: e split: option.splits)
  qed
qed

text \<open>
  C6. An object listed at the cursor of the held response is pushed as its key when
  the \<^verbatim>\<open>fullMetadata\<close> field is not truthy (the default) and as the whole record when it
  is. Over a run on pages that list objects, once the stream is no longer stopped, what
  has been pushed is, page by page and in order, the key of every object or the whole
  record of every object, as the option given to the constructor says.
\<close>

theorem emits_key_or_full_record:
  assumes "lastResponse s = Some r" and "Contents r = Some xs"
    and "currentIndex s < length xs" and "xs ! currentIndex s = Some m"
    and "pages \<noteq> []" and "\<forall>p \<in> set (butlast pages). IsTruncated p"
    and "\<not> IsTruncated (last pages)" and "\<forall>p \<in> set pages. listsObjects p"
    and "t = (read_fm ok ^^ n) (S3ListBucketStream_fm (map Inr pages @ later) b pre options args)"
    and "\<not> stopped t"
  shows "pushedOf (newEvents s (snd (iteration_fm ok' s)))
           = [if truthy (fullMetadata s) then CObj m else keyOf m]
       \<and> pushedOf (events t) = concat (map (itemsAs (options ''fullMetadata'')) pages)
       \<and> \<not> truthy (fullMetadata (S3ListBucketStream_fm client b pre Map.empty args))"
proof (intro conjI)
  have it: "iteration_fm ok' s = pushChunk_fm ok' s"
    using assms(1-3) by (simp add: iteration_fm_def needsPage_def)
  have c: "chunkFor (fullMetadata s) (if currentIndex s < length xs then xs ! currentIndex s else None)
      = Inr (emitted (fullMetadata s) m)"
    using assms(3,4) by (simp add: chunkFor_object)
  show "pushedOf (newEvents s (snd (iteration_fm ok' s)))
           = [if truthy (fullMetadata s) then CObj m else keyOf m]"
    unfolding it using assms(1,2) c
    by (cases "ok' (pushes s)") (simp_all add: pushChunk_fm_def push_def Let_def newEvents_def emitted_def)
next
  let ?s0 = "S3ListBucketStream_fm (map Inr pages @ later) b pre options args"
  have "outlook_fm t = outlook_fm ?s0" unfolding assms(9) by (rule reads_fm_outlook)
  with assms(10) have "pushedOf (events t) = expected_fm (fullMetadata ?s0) (map Inr pages @ later)"
    by (simp add: outlook_fm_def todo_fm_def S3ListBucketStream_fm_def)
  also have "\<dots> = expected_fm (options ''fullMetadata'') (map Inr pages @ later)"
    by (rule expected_fm_truthy) (rule mode_of_option)
  also have "\<dots> = concat (map (itemsAs (options ''fullMetadata'')) pages)"
    using assms(5-8) by (rule expected_fm_pages)
  finally show "pushedOf (events t) = concat (map (itemsAs (options ''fullMetadata'')) pages)" .
next
  show "\<not> truthy (fullMetadata (S3ListBucketStream_fm client b pre Map.empty args))"
    by (simp add: mode_of_option)
qed

theorem emits_key_or_full_record_witness:
  "pushedOf (events ((read_fm (\<lambda>k. True) ^^ 1)
       (S3ListBucketStream_fm (map Inr testPages @ []) ''some-bucket'' ''/some/prefix'' Map.empty Map.empty)))
     = [CStr ''0.jpg'', CStr ''1.jpg'', CStr ''2.jpg'', CStr ''3.jpg'', CStr ''4.jpg'', CStr ''5.jpg'']
   \<and> pushedOf (events ((read_fm (\<lambda>k. True) ^^ 1)
       (S3ListBucketStream_fm (map Inr testPages @ []) ''some-bucket'' ''/some/prefix''
          [''fullMetadata'' \<mapsto> Bool True] Map.empty)))
     = [CObj (testObject ''0.jpg'' 0), CObj (testObject ''1.jpg'' 100),
        CObj (testObject ''2.jpg'' 200), CObj (testObject ''3.jpg'' 300),
        CObj (testObject ''4.jpg'' 400), CObj (testObject ''5.jpg'' 500)]"
proof -
  let ?s = "\<lambda>options. S3ListBucketStream_fm (map Inr testPages @ []) ''some-bucket'' ''/some/prefix'' options Map.empty"
  let ?h = "(?s Map.empty)\<lparr>lastResponse := Some (hd testPages), stopped := False\<rparr>"
  have h: "lastResponse ?h = Some (hd testPages)"
    "Contents (hd testPages) = Some [Some (testObject ''0.jpg'' 0), Some (testObject ''1.jpg'' 100)]"
    "currentIndex ?h < length [Some (testObject ''0.jpg'' 0), Some (testObject ''1.jpg'' 100)]"
    "[Some (testObject ''0.jpg'' 0), Some (testObject ''1.jpg'' 100)] ! currentIndex ?h = Some (testObject ''0.jpg'' 0)"
    by (simp_all add: testPages_def S3ListBucketStream_fm_def)
  have p: "testPages \<noteq> []" "\<forall>p \<in> set (butlast testPages). IsTruncated p"
    "\<not> IsTruncated (last testPages)" "\<forall>p \<in> set testPages. listsObjects p"
    by (simp_all add: testPages_def listsObjects_def)
  have r1: "\<not> stopped ((read_fm (\<lambda>k. True) ^^ 1) (?s Map.empty))"
    by (simp add: testPages_def S3ListBucketStream_fm_def mergedOptions_def defaultOptions_def
        read_fm_def startRead_fm_def
        startRead_loop_fm.simps iteration_fm_def needsPage_def isOver_def loadNextPage_def
        pushChunk_fm_def chunkFor_def push_def pushNull_def Let_def)
  have r2: "\<not> stopped ((read_fm (\<lambda>k. True) ^^ 1) (?s [''fullMetadata'' \<mapsto> Bool True]))"
    by (simp add: testPages_def S3ListBucketStream_fm_def mergedOptions_def defaultOptions_def
        read_fm_def startRead_fm_def
        startRead_loop_fm.simps iteration_fm_def needsPage_def isOver_def loadNextPage_def
        pushChunk_fm_def chunkFor_def push_def pushNull_def Let_def)
  have i1: "concat (map (itemsAs (Map.empty ''fullMetadata'')) testPages)
      = [CStr ''0.jpg'', CStr ''1.jpg'', CStr ''2.jpg'', CStr ''3.jpg'', CStr ''4.jpg'', CStr ''5.jpg'']"
    by (simp add: itemsAs_def emitted_def keyOf_def testPages_def testObject_def)
  have i2: "concat (map (itemsAs ([''fullMetadata'' \<mapsto> Bool True] ''fullMetadata'')) testPages)
      = [CObj (testObject ''0.jpg'' 0), CObj (testObject ''1.jpg'' 100),
        CObj (testObject ''2.jpg'' 200), CObj (testObject ''3.jpg'' 300),
        CObj (testObject ''4.jpg'' 400), CObj (testObject ''5.jpg'' 500)]"
    by (simp add: itemsAs_def emitted_def testPages_def)
  note T1 = emits_key_or_full_record [OF h p refl r1, where ok' = "\<lambda>k. True" and client = "[]",
      THEN conjunct2, THEN conjunct1]
  note T2 = emits_key_or_full_record [OF h p refl r2, where ok' = "\<lambda>k. True" and client = "[]",
      THEN conjunct2, THEN conjunct1]
  show ?thesis unfolding T1 T2 i1 i2 by simp
qed

section \<open>Where the two variants differ\<close>

text \<open>
  The variant with the \<^verbatim>\<open>fullMetadata\<close> option has no guard against a nullish entry:
  in key mode reading its \<^verbatim>\<open>Key\<close> throws, in full mode the nullish value itself is
  pushed. An empty page is read at index 0 in the round that fetched it, so in key mode
  it ends the stream with that error. \<^verbatim>\<open>src/index.ts\<close> passes over both.
\<close>

lemma variant_nullish_entry:
  assumes "lastResponse s = Some r" and "Contents r = Some xs"
    and "currentIndex s < length xs" and "xs ! currentIndex s = None"
  shows "fst (iteration_fm ok s)
           = (if truthy (fullMetadata s) then Inr (ok (pushes s)) else Inl (TypeError P_Key))"
    and "pushedOf (newEvents s (snd (iteration_fm ok s)))
           = (if truthy (fullMetadata s) then [CNullish] else [])"
  using assms
  by (cases "ok (pushes s)";
      simp add: iteration_fm_def needsPage_def pushChunk_fm_def chunkFor_def push_def Let_def newEvents_def)+

lemma variant_empty_page:
  assumes "needsPage s = Inr True" and "\<not> isOver s"
    and "s3 s = Inr r # rest" and "Contents r = Some []" and "\<not> truthy (fullMetadata s)"
  shows "fst (iteration_fm ok s) = Inl (TypeError P_Key)"
  using assms
  by (simp add: iteration_fm_def loadNextPage_success pushChunk_fm_def chunkFor_def Let_def)

lemma index_empty_page:
  assumes "needsPage s = Inr True" and "\<not> isOver s"
    and "s3 s = Inr r # rest" and "Contents r = Some []" and "CommonPrefixes r = None"
  shows "fst (iteration ok s) = Inr True"
    and "pushedOf (newEvents s (snd (iteration ok s))) = []"
  using assms
  by (simp_all add: iteration_def loadNextPage_success emitPrefixes_def pushChunk_def Let_def newEvents_def)

end
